theory Spec2Isabelle
  imports Main "HOL-Library.Char_ord" "HOL-Library.List_Lexorder" "HOL-Library.Multiset"
    "HOL-Library.AList"
begin

section \<open>Errors\<close>

text \<open>
  Every \<^verbatim>\<open>throw\<close> of the JavaScript is a value.  \<open>AssertionFailed\<close> is a failed
  \<^verbatim>\<open>_assert\<close> with its message, \<open>Thrown\<close> an explicit \<^verbatim>\<open>throw new Error\<close>
  (the fixed part of its text), \<open>TypeError\<close> a property access or a call on
  \<^verbatim>\<open>undefined\<close>/\<^verbatim>\<open>null\<close>, \<open>ReferenceError\<close> a failed \<^verbatim>\<open>safeGet\<close>, and
  \<open>StackOverflow\<close> a recursion that exhausts the call stack.
\<close>

datatype error =
    AssertionFailed string
  | Thrown string
  | TypeError
  | ReferenceError
  | StackOverflow

section \<open>Session-ID derivation (ske.js)\<close>

text \<open>
  Participant ids, nonces and keys are JavaScript binary strings; they are modelled as
  \<^typ>\<open>string\<close>, ordered lexicographically by character code as
  \<^verbatim>\<open>Array.prototype.sort\<close> orders strings.  The hash
  \<^verbatim>\<open>mpenc.utils.sha256\<close> belongs to the crypto capability and is a parameter.
\<close>

text \<open>\<^verbatim>\<open>nonces[i]\<close>: reading past the end of the array gives
  \<^verbatim>\<open>undefined\<close>, which string concatenation renders as the text "undefined".\<close>

definition nonce_at :: "string list \<Rightarrow> nat \<Rightarrow> string" where
  "nonce_at nonces i = (if i < length nonces then nonces ! i else ''undefined'')"

text \<open>
  \<^verbatim>\<open>mapping\<close> is a plain object (\<^verbatim>\<open>var mapping = {}\<close>) used as a dictionary.  Every
  string is an ordinary property name of it but one: \<^verbatim>\<open>__proto__\<close> is an accessor
  inherited from \<^verbatim>\<open>Object.prototype\<close>.  Assigning a string to it does nothing, and
  reading it gives the prototype object, which string concatenation renders as the text
  "[object Object]".
\<close>

definition proto_key :: string where
  "proto_key = ''__proto__''"

text \<open>First loop of \<^verbatim>\<open>_computeSid\<close>: \<^verbatim>\<open>mapping[members[i]] = nonces[i]\<close>.\<close>

definition mapping_set :: "string list \<Rightarrow> string list \<Rightarrow> nat \<Rightarrow> (string \<rightharpoonup> string) \<Rightarrow> (string \<rightharpoonup> string)" where
  "mapping_set members nonces i mapping =
     (if members ! i = proto_key then mapping
      else mapping(members ! i \<mapsto> nonce_at nonces i))"

definition sid_mapping :: "string list \<Rightarrow> string list \<Rightarrow> (string \<rightharpoonup> string)" where
  "sid_mapping members nonces =
     fold (mapping_set members nonces) [0..<length members] Map.empty"

text \<open>\<^verbatim>\<open>mapping[pid]\<close>, as concatenated to a string.\<close>

definition mapping_get :: "(string \<rightharpoonup> string) \<Rightarrow> string \<Rightarrow> string" where
  "mapping_get mapping pid =
     (if pid = proto_key then ''[object Object]''
      else case mapping pid of Some n \<Rightarrow> n | None \<Rightarrow> ''undefined'')"

text \<open>Second loop: empty (falsy) ids are skipped, the others add their id and their nonce.\<close>

fun sid_items :: "(string \<rightharpoonup> string) \<Rightarrow> string list \<Rightarrow> string \<times> string \<Rightarrow> string \<times> string" where
  "sid_items mapping [] acc = acc"
| "sid_items mapping (pid # rest) (pidItems, nonceItems) =
     (if pid \<noteq> []
      then sid_items mapping rest (pidItems @ pid, nonceItems @ mapping_get mapping pid)
      else sid_items mapping rest (pidItems, nonceItems))"

definition computeSid :: "(string \<Rightarrow> string) \<Rightarrow> string list \<Rightarrow> string list \<Rightarrow> string" where
  "computeSid sha256 members nonces =
     (let mapping = sid_mapping members nonces;
          sortedMembers = sort members;
          (pidItems, nonceItems) = sid_items mapping sortedMembers ([], [])
      in sha256 (pidItems @ nonceItems))"

text \<open>The specification's reading: pair each member with its nonce, sort the pairs by
  member id, drop the pairs with an empty id, hash all ids followed by all nonces.\<close>

definition sid_spec :: "(string \<Rightarrow> string) \<Rightarrow> string list \<Rightarrow> string list \<Rightarrow> string" where
  "sid_spec sha256 members nonces =
     (let ps = filter (\<lambda>p. fst p \<noteq> []) (sort_key fst (zip members nonces))
      in sha256 (concat (map fst ps) @ concat (map snd ps)))"

section \<open>The key-exchange member (ske.js)\<close>

record ske_message =
  source :: string
  dest :: string
  flow :: string
  members :: "string list"
  nonces :: "string list"
  pubKeys :: "string list"
  sessionSignature :: "string option"

text \<open>
  The member object.  Fields that start as \<^verbatim>\<open>null\<close> are options.  The array
  \<^verbatim>\<open>authenticatedMembers\<close> holds \<open>Some b\<close> for a written slot and \<open>None\<close> for a hole
  left by a write past the end.  Static keys are opaque (\<open>'sk\<close>, \<open>'pk\<close>); the
  directory of static public keys is \<^verbatim>\<open>null\<close> until the caller sets it.
\<close>

record ('sk, 'pk) ske_member =
  self_id :: string
  self_members :: "string list"
  authenticatedMembers :: "bool option list option"
  ephemeralPrivKey :: "string option"
  ephemeralPubKey :: "string option"
  nonce :: "string option"
  self_nonces :: "string list option"
  ephemeralPubKeys :: "string list option"
  sessionId :: "string option"
  staticPrivKey :: "'sk option"
  staticPubKeyDir :: "(string \<rightharpoonup> 'pk) option"
  oldEphemeralKeys :: "string \<rightharpoonup> (string option \<times> bool)"

text \<open>
  The crypto capability: the hash, the derivation of the ephemeral public key
  (\<^verbatim>\<open>djbec.publickey\<close>), and the two RSA operations, which can throw (padding
  assertions, decoding assertions).
\<close>

record ('sk, 'pk) crypto =
  sha256 :: "string \<Rightarrow> string"
  publickey :: "string \<Rightarrow> string"
  smallrsasign :: "string \<Rightarrow> 'sk \<Rightarrow> error + string"
  smallrsaverify :: "string \<Rightarrow> 'pk \<Rightarrow> error + string"

text \<open>\<^verbatim>\<open>Array.prototype.indexOf\<close>: the first position, \<open>None\<close> for \<open>-1\<close>.\<close>

fun indexOf :: "'a list \<Rightarrow> 'a \<Rightarrow> nat option" where
  "indexOf [] x = None"
| "indexOf (y # ys) x = (if y = x then Some 0 else map_option Suc (indexOf ys x))"

text \<open>Modelled from the spec: \<^verbatim>\<open>mpenc.utils._noDuplicatesInList\<close> is not among the
  sources; "members contain no duplicates".\<close>

definition noDuplicatesInList :: "string list \<Rightarrow> bool" where
  "noDuplicatesInList xs = distinct xs"

text \<open>Modelled from the spec: \<^verbatim>\<open>mpenc.utils._arrayMaker\<close> is not among the sources;
  "initialise authenticated[] = [false, ...]".\<close>

definition arrayMaker :: "nat \<Rightarrow> bool \<Rightarrow> bool option list" where
  "arrayMaker n b = replicate n (Some b)"

text \<open>\<^verbatim>\<open>arr[pos] = true\<close>: index \<open>-1\<close> sets a property and no element; an index past
  the end extends the array, leaving holes.\<close>

definition array_set :: "bool option list \<Rightarrow> nat option \<Rightarrow> bool \<Rightarrow> bool option list" where
  "array_set arr pos b =
     (case pos of
        None \<Rightarrow> arr
      | Some i \<Rightarrow> if i < length arr then arr[i := Some b]
                 else arr @ replicate (i - length arr) None @ [Some b])"

text \<open>String concatenation of a nullable string.\<close>

definition str_of :: "string option \<Rightarrow> string" where
  "str_of v = (case v of None \<Rightarrow> ''null'' | Some x \<Rightarrow> x)"

definition truthy :: "string option \<Rightarrow> bool" where
  "truthy v = (case v of None \<Rightarrow> False | Some x \<Rightarrow> x \<noteq> [])"

definition computeSessionSig :: "('sk, 'pk) crypto \<Rightarrow> ('sk, 'pk) ske_member \<Rightarrow> error + string" where
  "computeSessionSig C self =
     (if \<not> truthy (sessionId self) then Inl (AssertionFailed ''Session ID not available.'')
      else if \<not> truthy (ephemeralPubKey self)
        then Inl (AssertionFailed ''No ephemeral key pair available.'')
      else
        let sessionAck = self_id self @ str_of (ephemeralPubKey self) @ str_of (nonce self)
                           @ str_of (sessionId self);
            hashValue = sha256 C sessionAck
        in case staticPrivKey self of
             None \<Rightarrow> Inl TypeError
           | Some privkey \<Rightarrow> smallrsasign C hashValue privkey)"

text \<open>\<^verbatim>\<open>this.ephemeralPubKeys[memberPos]\<close> and \<^verbatim>\<open>this.nonces[memberPos]\<close> on nullable arrays.\<close>

definition verifySessionSig ::
  "('sk, 'pk) crypto \<Rightarrow> ('sk, 'pk) ske_member \<Rightarrow> string \<Rightarrow> string option \<Rightarrow> error + bool" where
  "verifySessionSig C self memberId signature =
     (if \<not> truthy (sessionId self) then Inl (AssertionFailed ''Session ID not available.'')
      else case indexOf (self_members self) memberId of
        None \<Rightarrow> Inl (AssertionFailed ''Member not in participants list.'')
      | Some memberPos \<Rightarrow>
         (case ephemeralPubKeys self of
            None \<Rightarrow> Inl TypeError
          | Some epks \<Rightarrow>
             if \<not> (memberPos < length epks \<and> epks ! memberPos \<noteq> [])
               then Inl (AssertionFailed ''Member's ephemeral pub key missing.'')
             else
               (case staticPubKeyDir self of
                  None \<Rightarrow> Inl TypeError
                | Some dir \<Rightarrow>
                   (case dir memberId of
                      None \<Rightarrow> Inl (AssertionFailed ''Member's static pub key missing.'')
                    | Some pubkey \<Rightarrow>
                       (case signature of
                          None \<Rightarrow> Inl TypeError
                        | Some sg \<Rightarrow>
                           (case smallrsaverify C sg pubkey of
                              Inl e \<Rightarrow> Inl e
                            | Inr decrypted \<Rightarrow>
                               (case self_nonces self of
                                  None \<Rightarrow> Inl TypeError
                                | Some ns \<Rightarrow>
                                   (let sessionAck = memberId @ epks ! memberPos
                                                       @ nonce_at ns memberPos
                                                       @ str_of (sessionId self);
                                        hashValue = sha256 C sessionAck
                                    in Inr (decrypted = hashValue)))))))))"

text \<open>
  \<^verbatim>\<open>upflow\<close>.  The two random draws (\<^verbatim>\<open>_newKey08(256)\<close> for the nonce,
  \<^verbatim>\<open>_newKey08(512)\<close> for the private key) are arguments.  The result is the member
  after the call together with the returned message or the error thrown.
\<close>

definition upflow ::
  "('sk, 'pk) crypto \<Rightarrow> string \<Rightarrow> string \<Rightarrow> ('sk, 'pk) ske_member \<Rightarrow> ske_message
     \<Rightarrow> ('sk, 'pk) ske_member \<times> (error + ske_message)" where
  "upflow C newNonce newPrivKey self message =
     (if \<not> noDuplicatesInList (members message)
        then (self, Inl (AssertionFailed ''Duplicates in member list detected!''))
      else if \<not> length (nonces message) \<le> length (members message)
        then (self, Inl (AssertionFailed ''Too many nonces on ASKE upflow!''))
      else if \<not> length (pubKeys message) \<le> length (members message)
        then (self, Inl (AssertionFailed ''Too many pub keys on ASKE upflow!''))
      else case indexOf (members message) (self_id self) of
        None \<Rightarrow> (self, Inl (AssertionFailed ''Not member of this key exchange!''))
      | Some myPos \<Rightarrow>
         let pub = publickey C newPrivKey;
             self1 = self\<lparr> self_members := members message,
                           self_nonces := Some (nonces message @ [newNonce]),
                           ephemeralPubKeys := Some (pubKeys message @ [pub]),
                           nonce := Some newNonce,
                           ephemeralPrivKey := Some newPrivKey,
                           ephemeralPubKey := Some pub \<rparr>
         in if myPos = length (self_members self1) - 1 then
              let self2 = self1\<lparr> sessionId :=
                            Some (computeSid (sha256 C) (self_members self1)
                                    (nonces message @ [newNonce])) \<rparr>;
                  self3 = self2\<lparr> authenticatedMembers :=
                            Some (array_set (arrayMaker (length (self_members self2)) False)
                                    (Some myPos) True) \<rparr>
              in case computeSessionSig C self3 of
                   Inl e \<Rightarrow> (self3, Inl e)
                 | Inr sg \<Rightarrow>
                    (self3, Inr (message\<lparr> source := self_id self, dest := [],
                                           flow := ''downflow'',
                                           sessionSignature := Some sg,
                                           nonces := nonces message @ [newNonce],
                                           pubKeys := pubKeys message @ [pub] \<rparr>))
            else
              (self1, Inr (message\<lparr> source := self_id self,
                                      dest := self_members self1 ! (myPos + 1),
                                      nonces := nonces message @ [newNonce],
                                      pubKeys := pubKeys message @ [pub] \<rparr>)))"

text \<open>\<^verbatim>\<open>downflow\<close>: \<open>Inr None\<close> is the \<^verbatim>\<open>null\<close> returned for a session already known.\<close>

definition downflow ::
  "('sk, 'pk) crypto \<Rightarrow> ('sk, 'pk) ske_member \<Rightarrow> ske_message
     \<Rightarrow> ('sk, 'pk) ske_member \<times> (error + ske_message option)" where
  "downflow C self message =
     (if \<not> noDuplicatesInList (members message)
        then (self, Inl (AssertionFailed ''Duplicates in member list detected!''))
      else
        let myPos = indexOf (members message) (self_id self);
            sid = computeSid (sha256 C) (members message) (nonces message);
            existingSession = (sessionId self = Some sid);
            self1 = (if \<not> existingSession then
                       self\<lparr> self_members := members message,
                             self_nonces := Some (nonces message),
                             ephemeralPubKeys := Some (pubKeys message),
                             sessionId := Some sid,
                             authenticatedMembers :=
                               Some (array_set (arrayMaker (length (members message)) False)
                                       myPos True) \<rparr>
                     else self)
        in (case verifySessionSig C self1 (source message) (sessionSignature message) of
             Inl e \<Rightarrow> (self1, Inl e)
           | Inr isValid \<Rightarrow>
              if \<not> isValid
                then (self1, Inl (AssertionFailed ''Authentication of member failed: ''))
              else
                (let senderPos = indexOf (members message) (source message)
                 in (case authenticatedMembers self1 of
                       None \<Rightarrow> (self1, Inl TypeError)
                     | Some am \<Rightarrow>
                        (let self2 = self1\<lparr> authenticatedMembers :=
                                              Some (array_set am senderPos True) \<rparr>
                         in if existingSession then (self2, Inr None)
                            else
                              (case computeSessionSig C self2 of
                                 Inl e \<Rightarrow> (self2, Inl e)
                               | Inr sg \<Rightarrow>
                                  (self2, Inr (Some (message\<lparr> source := self_id self,
                                                       sessionSignature := Some sg \<rparr>)))))))))"

text \<open>\<^verbatim>\<open>isSessionAcknowledged\<close>: \<^verbatim>\<open>every\<close> skips holes.\<close>

definition isSessionAcknowledged :: "('sk, 'pk) ske_member \<Rightarrow> error + bool" where
  "isSessionAcknowledged self =
     (case authenticatedMembers self of
        None \<Rightarrow> Inl TypeError
      | Some am \<Rightarrow> Inr (\<forall>x \<in> set am. x \<noteq> Some False))"

section \<open>The transcript (mpenc/impl/transcript.js)\<close>

type_synonym mid = string
type_synonym uid = string

text \<open>
  A transcript message.  \<^verbatim>\<open>mId\<close> and \<^verbatim>\<open>author\<close> can be \<^verbatim>\<open>null\<close>; \<^verbatim>\<open>parents\<close> and
  \<^verbatim>\<open>readers\<close> are \<^verbatim>\<open>ImmutableSet\<close>s, kept as lists in iteration order and read
  as sets.
\<close>

record tmsg =
  mId :: "mid option"
  author :: "uid option"
  parents :: "mid list"
  readers :: "uid list"
  body :: string

text \<open>Modelled from the spec: \<^verbatim>\<open>struct.ImmutableSet\<close> is not among the sources; the
  operations used are membership, size, union and subtraction of sets.\<close>

definition iset_has :: "'a list \<Rightarrow> 'a \<Rightarrow> bool" where
  "iset_has xs x = (x \<in> set xs)"

definition iset_size :: "'a list \<Rightarrow> nat" where
  "iset_size xs = length (remdups xs)"

definition iset_union :: "'a list \<Rightarrow> 'a list \<Rightarrow> 'a list" where
  "iset_union xs ys = xs @ filter (\<lambda>y. y \<notin> set xs) ys"

definition iset_subtract :: "'a list \<Rightarrow> 'a list \<Rightarrow> 'a list" where
  "iset_subtract xs ys = filter (\<lambda>x. x \<notin> set ys) xs"

text \<open>Modelled from the spec: \<^verbatim>\<open>Message.members\<close> (mpenc/message) is not among the
  sources; "members() = {author} \<union> readers".\<close>

definition msg_members :: "tmsg \<Rightarrow> uid option list" where
  "msg_members msg = author msg # map Some (readers msg)"

text \<open>
  The fields of \<^verbatim>\<open>BaseTranscript\<close>; \<open>t_x\<close> is \<^verbatim>\<open>this._x\<close>.  A context is a
  \<^verbatim>\<open>Map\<close> from user to message id or \<^verbatim>\<open>null\<close>, kept as an association list in
  insertion order.
\<close>

type_synonym ctx = "(uid option \<times> mid option) list"

record transcript =
  t_uIds :: "uid list"
  t_messages :: "mid \<rightharpoonup> tmsg"
  t_minMessages :: "mid list"
  t_maxMessages :: "mid list"
  t_successors :: "mid \<rightharpoonup> mid list"
  t_length :: nat
  t_messageIndex :: "mid \<rightharpoonup> nat"
  t_log :: "mid list"
  t_authorMessages :: "uid \<rightharpoonup> mid list"
  t_authorIndex :: "mid \<rightharpoonup> nat"
  t_context :: "mid \<rightharpoonup> ctx"
  t_unackby :: "mid \<rightharpoonup> uid list"
  t_unacked :: "mid list"
  t_fubar :: bool
  t_cacheBy :: "uid \<rightharpoonup> mid list"
  t_cacheUnacked :: "mid list option"

definition BaseTranscript :: transcript where
  "BaseTranscript =
     \<lparr> t_uIds = [], t_messages = Map.empty, t_minMessages = [], t_maxMessages = [],
       t_successors = Map.empty, t_length = 0, t_messageIndex = Map.empty, t_log = [],
       t_authorMessages = Map.empty, t_authorIndex = Map.empty, t_context = Map.empty,
       t_unackby = Map.empty, t_unacked = [], t_fubar = False,
       t_cacheBy = Map.empty, t_cacheUnacked = None \<rparr>"

text \<open>Modelled from the spec: \<^verbatim>\<open>struct.safeGet\<close> is not among the sources; it returns
  the value of a key and throws when the key is absent.\<close>

definition safeGet :: "('k \<rightharpoonup> 'v) \<Rightarrow> 'k \<Rightarrow> error + 'v" where
  "safeGet m k = (case m k of None \<Rightarrow> Inl ReferenceError | Some v \<Rightarrow> Inr v)"

subsection \<open>Read operations\<close>

definition bt_size :: "transcript \<Rightarrow> error + nat" where
  "bt_size t = Inr (t_length t)"

definition bt_all :: "transcript \<Rightarrow> error + mid list" where
  "bt_all t = Inr (t_log t)"

definition bt_has :: "transcript \<Rightarrow> mid \<Rightarrow> error + bool" where
  "bt_has t m = Inr (t_messages t m \<noteq> None)"

definition bt_min :: "transcript \<Rightarrow> error + mid list" where
  "bt_min t = Inr (t_minMessages t)"

definition bt_max :: "transcript \<Rightarrow> error + mid list" where
  "bt_max t = Inr (t_maxMessages t)"

definition bt_get :: "transcript \<Rightarrow> mid \<Rightarrow> error + tmsg" where
  "bt_get t m = safeGet (t_messages t) m"

definition bt_pre :: "transcript \<Rightarrow> mid \<Rightarrow> error + mid list" where
  "bt_pre t m = map_sum id parents (safeGet (t_messages t) m)"

definition bt_suc :: "transcript \<Rightarrow> mid \<Rightarrow> error + mid list" where
  "bt_suc t m = safeGet (t_successors t) m"

definition bt_author :: "transcript \<Rightarrow> mid \<Rightarrow> error + uid option" where
  "bt_author t m = map_sum id author (safeGet (t_messages t) m)"

definition bt_unackby :: "transcript \<Rightarrow> mid \<Rightarrow> error + uid list" where
  "bt_unackby t m = safeGet (t_unackby t) m"

text \<open>
  \<^verbatim>\<open>x <= y\<close> and \<^verbatim>\<open>x > y\<close> on results of \<^verbatim>\<open>Map.get\<close>: a comparison with
  \<^verbatim>\<open>undefined\<close> is false.
\<close>

definition idx_le :: "nat option \<Rightarrow> nat option \<Rightarrow> bool" where
  "idx_le a b = (case (a, b) of (Some i, Some j) \<Rightarrow> i \<le> j | _ \<Rightarrow> False)"

definition idx_gt :: "nat option \<Rightarrow> nat option \<Rightarrow> bool" where
  "idx_gt a b = (case (a, b) of (Some i, Some j) \<Rightarrow> i > j | _ \<Rightarrow> False)"

text \<open>The loop of \<^verbatim>\<open>_le_expensive\<close> and \<^verbatim>\<open>Array.prototype.some\<close>: the first
  \<^verbatim>\<open>true\<close> ends it, an exception leaves it.\<close>

fun some_of :: "('a \<Rightarrow> error + bool) \<Rightarrow> 'a list \<Rightarrow> error + bool" where
  "some_of f [] = Inr False"
| "some_of f (x # xs) =
     (case f x of Inl e \<Rightarrow> Inl e | Inr True \<Rightarrow> Inr True | Inr False \<Rightarrow> some_of f xs)"

text \<open>
  \<^verbatim>\<open>le\<close> and \<^verbatim>\<open>_le_expensive\<close> call each other; the first argument bounds the
  depth of the recursion, and running out of it is the stack overflow of a recursion
  that does not end.  \<open>bt_le\<close> runs it with one more than the length of the log: on a
  transcript built by \<^verbatim>\<open>add\<close>, \<^verbatim>\<open>by\<close> and \<^verbatim>\<open>unacked\<close> every step to a parent
  lowers the index in the log, so the bound is not reached there (lemma \<open>bt_le_total\<close>);
  a transcript object with a longer chain of parents than its log is outside what this
  bound covers.
\<close>

primrec le_fuel :: "nat \<Rightarrow> transcript \<Rightarrow> mid \<Rightarrow> mid \<Rightarrow> error + bool" where
  "le_fuel 0 t m0 m1 = Inl StackOverflow"
| "le_fuel (Suc n) t m0 m1 =
     (if m0 = m1 then Inr True
      else case safeGet (t_messages t) m0 of
        Inl e \<Rightarrow> Inl e
      | Inr msg0 \<Rightarrow>
         (case safeGet (t_messages t) m1 of
            Inl e \<Rightarrow> Inl e
          | Inr msg1 \<Rightarrow>
             if author msg0 = author msg1
               then Inr (idx_le (t_authorIndex t m0) (t_authorIndex t m1))
             else if (case author msg0 of None \<Rightarrow> False | Some u0 \<Rightarrow> iset_has (readers msg1) u0)
               then (case t_context t m1 of
                       None \<Rightarrow> Inl TypeError
                     | Some c \<Rightarrow>
                        (case map_of c (author msg0) of
                           None \<Rightarrow> Inr False
                         | Some None \<Rightarrow> Inr False
                         | Some (Some p0) \<Rightarrow>
                            Inr (idx_le (t_authorIndex t m0) (t_authorIndex t p0))))
             else if idx_gt (t_messageIndex t m0) (t_messageIndex t m1) then Inr False
             else some_of (le_fuel n t m0) (parents msg1)))"

definition bt_le :: "transcript \<Rightarrow> mid \<Rightarrow> mid \<Rightarrow> error + bool" where
  "bt_le t m0 m1 = le_fuel (Suc (length (t_log t))) t m0 m1"

definition bt_ge :: "transcript \<Rightarrow> mid \<Rightarrow> mid \<Rightarrow> error + bool" where
  "bt_ge t m0 m1 = bt_le t m1 m0"

text \<open>\<^verbatim>\<open>_sortMIds\<close>: ascending index in the log.  Every id sorted on the paths below
  has an index; an id without one is placed as index 0.\<close>

definition sortMIds :: "transcript \<Rightarrow> mid list \<Rightarrow> mid list" where
  "sortMIds t mIds = sort_key (\<lambda>m. case t_messageIndex t m of None \<Rightarrow> 0 | Some i \<Rightarrow> i) mIds"

text \<open>\<^verbatim>\<open>by\<close> and \<^verbatim>\<open>unacked\<close> fill a cache, so they return the transcript too.\<close>

definition bt_by :: "transcript \<Rightarrow> uid \<Rightarrow> transcript \<times> (error + mid list)" where
  "bt_by t u =
     (case t_cacheBy t u of
        Some ms \<Rightarrow> (t, Inr ms)
      | None \<Rightarrow>
         (case safeGet (t_authorMessages t) u of
            Inl e \<Rightarrow> (t, Inl e)
          | Inr ms \<Rightarrow> (t\<lparr> t_cacheBy := (t_cacheBy t)(u \<mapsto> ms) \<rparr>, Inr ms)))"

definition bt_unacked :: "transcript \<Rightarrow> transcript \<times> (error + mid list)" where
  "bt_unacked t =
     (case t_cacheUnacked t of
        Some ms \<Rightarrow> (t, Inr ms)
      | None \<Rightarrow>
         (let ms = sortMIds t (t_unacked t)
          in (t\<lparr> t_cacheUnacked := Some ms \<rparr>, Inr ms)))"

subsection \<open>Adding a message\<close>

text \<open>A loop whose body can throw: the first exception ends it.\<close>

fun foldE :: "('a \<Rightarrow> 'b \<Rightarrow> error + 'b) \<Rightarrow> 'a list \<Rightarrow> 'b \<Rightarrow> error + 'b" where
  "foldE f [] acc = Inr acc"
| "foldE f (x # xs) acc = (case f x acc of Inl e \<Rightarrow> Inl e | Inr acc' \<Rightarrow> foldE f xs acc')"

text \<open>
  \<^verbatim>\<open>_mergeContext\<close>, first loop body: an entry \<open>(u, um)\<close> of a parent's context
  replaces the entry collected so far when there is none, when it is \<^verbatim>\<open>null\<close>, or
  when \<open>um\<close> is not \<^verbatim>\<open>null\<close> and \<^verbatim>\<open>ge(um, context.get(u))\<close>.
\<close>

definition mergeEntry :: "transcript \<Rightarrow> uid option \<times> mid option \<Rightarrow> ctx \<Rightarrow> error + ctx" where
  "mergeEntry t e c =
     (case e of (u, um) \<Rightarrow>
        (case map_of c u of
           None \<Rightarrow> Inr (AList.update u um c)
         | Some None \<Rightarrow> Inr (AList.update u um c)
         | Some (Some cur) \<Rightarrow>
            (case um of
               None \<Rightarrow> Inr c
             | Some umv \<Rightarrow>
                (case bt_ge t umv cur of
                   Inl err \<Rightarrow> Inl err
                 | Inr True \<Rightarrow> Inr (AList.update u um c)
                 | Inr False \<Rightarrow> Inr c))))"

definition mergeParent :: "transcript \<Rightarrow> mid \<Rightarrow> ctx \<Rightarrow> error + ctx" where
  "mergeParent t m c =
     (case t_context t m of
        None \<Rightarrow> Inl TypeError
      | Some mc \<Rightarrow> foldE (mergeEntry t) mc c)"

definition setParentAuthor :: "transcript \<Rightarrow> mid \<Rightarrow> ctx \<Rightarrow> error + ctx" where
  "setParentAuthor t m c =
     (case bt_author t m of
        Inl e \<Rightarrow> Inl e
      | Inr u \<Rightarrow> Inr (AList.update u (Some m) c))"

definition setMissingReader :: "uid \<Rightarrow> ctx \<Rightarrow> ctx" where
  "setMissingReader u c = (if map_of c (Some u) = None then AList.update (Some u) None c else c)"

definition mergeContext :: "transcript \<Rightarrow> mid list \<Rightarrow> uid list \<Rightarrow> error + ctx" where
  "mergeContext t pmId ruId =
     (case foldE (mergeParent t) pmId [] of
        Inl e \<Rightarrow> Inl e
      | Inr c1 \<Rightarrow>
         (case foldE (setParentAuthor t) pmId c1 of
            Inl e \<Rightarrow> Inl e
          | Inr c2 \<Rightarrow>
             (let c3 = fold setMissingReader ruId c2
              in Inr (filter (\<lambda>(pu, _). case pu of None \<Rightarrow> False | Some u \<Rightarrow> iset_has ruId u) c3))))"

text \<open>
  Modelled from the spec: \<^verbatim>\<open>graph.CausalOrder.prototype.iterAncestors\<close> is not among
  the sources; "walk ancestors reachable through nodes that still have uId in their
  unackby".  The walk starts at the given nodes, yields each node that satisfies the
  predicate once, and goes on to the parents of a yielded node only.  The first
  argument bounds the depth of the walk.
\<close>

primrec visitAncestors ::
  "nat \<Rightarrow> transcript \<Rightarrow> (mid \<Rightarrow> error + bool) \<Rightarrow> mid \<Rightarrow> error + mid list \<Rightarrow> error + mid list" where
  "visitAncestors 0 t pred m acc = (case acc of Inl e \<Rightarrow> Inl e | Inr seen \<Rightarrow> Inl StackOverflow)"
| "visitAncestors (Suc n) t pred m acc =
     (case acc of
        Inl e \<Rightarrow> Inl e
      | Inr seen \<Rightarrow>
         if m \<in> set seen then Inr seen
         else
           (case pred m of
              Inl e \<Rightarrow> Inl e
            | Inr False \<Rightarrow> Inr seen
            | Inr True \<Rightarrow>
               (case bt_pre t m of
                  Inl e \<Rightarrow> Inl e
                | Inr ps \<Rightarrow> fold (visitAncestors n t pred) ps (Inr (seen @ [m])))))"

definition iterAncestors ::
  "transcript \<Rightarrow> mid list \<Rightarrow> (mid \<Rightarrow> error + bool) \<Rightarrow> error + mid list" where
  "iterAncestors t init pred =
     fold (visitAncestors (Suc (length (t_log t))) t pred) init (Inr [])"

text \<open>The last message of the author, as computed on entry:
  \<^verbatim>\<open>this._authorMessages.has(uId) ? this._authorMessages.get(uId).slice(-1)[0] : null\<close>.\<close>

datatype pum = Null | Undefined | Value mid

definition pumId_of :: "transcript \<Rightarrow> uid option \<Rightarrow> pum" where
  "pumId_of t uId =
     (case uId of
        None \<Rightarrow> Null
      | Some u \<Rightarrow>
         (case t_authorMessages t u of
            None \<Rightarrow> Null
          | Some ms \<Rightarrow> if ms = [] then Undefined else Value (last ms)))"

text \<open>The membership merger \<^verbatim>\<open>graph.createMerger(...)\<close> is not among the sources.
  It reads the transcript through \<^verbatim>\<open>pre\<close>, \<^verbatim>\<open>suc\<close>, \<^verbatim>\<open>le\<close> and
  \<^verbatim>\<open>members\<close>, and it is a parameter.\<close>

type_synonym merger = "transcript \<Rightarrow> mid list \<Rightarrow> error + uid option list"

text \<open>
  "invariant: total-ordering of one user's messages":
  \<^verbatim>\<open>pmIdArr.some(function(m) { return self.le(pumId, m); })\<close> when \<^verbatim>\<open>pumId !== null\<close>.
  With \<^verbatim>\<open>pumId\<close> undefined, \<^verbatim>\<open>le\<close> throws on the first parent.
\<close>

definition order_check :: "transcript \<Rightarrow> pum \<Rightarrow> mid list \<Rightarrow> error + bool" where
  "order_check t pumId pmId =
     (case pumId of
        Null \<Rightarrow> Inr True
      | Undefined \<Rightarrow> (if pmId = [] then Inr False
                      else Inl (Thrown ''le: m0 and m1 are not both defined: ''))
      | Value pm \<Rightarrow> some_of (bt_le t pm) pmId)"

text \<open>The sanity checks of \<^verbatim>\<open>add\<close>, in the order of the source, up to the computed
  context.  Nothing is written here.\<close>

definition add_checks :: "merger \<Rightarrow> transcript \<Rightarrow> tmsg \<Rightarrow> error + (mid \<times> uid \<times> pum \<times> ctx)" where
  "add_checks merge t msg =
     (let pmId = parents msg; ruId = readers msg; pumId = pumId_of t (author msg)
      in (case mId msg of
        None \<Rightarrow> Inl (Thrown ''invalid mId: null'')
      | Some m \<Rightarrow>
         if iset_has pmId m then Inl (Thrown ''message references itself: '')
         else if t_messages t m \<noteq> None then Inl (Thrown ''message already added: '')
         else
          (case author msg of
           None \<Rightarrow> Inl (Thrown ''invalid uId: null'')
         | Some u \<Rightarrow>
            if iset_has ruId u then Inl (Thrown ''message sent to self: '')
            else if iset_size (filter (\<lambda>pm. t_messages t pm = None) pmId) > 0
              then Inl (Thrown ''parents not found: '')
            else if filter (\<lambda>pm. case t_messages t pm of
                                      None \<Rightarrow> False
                                    | Some pmsg \<Rightarrow> \<not> iset_has (msg_members pmsg) (Some u)) pmId \<noteq> []
              then Inl TypeError
            else if iset_size pmId
                      > iset_size (map (\<lambda>pm. case t_messages t pm of
                                                  None \<Rightarrow> None
                                                | Some pmsg \<Rightarrow> author pmsg) pmId)
              then Inl (Thrown ''redundant parents: not from distinct authors'')
            else
              (case order_check t pumId pmId of
                 Inl e \<Rightarrow> Inl e
               | Inr False \<Rightarrow> Inl (Thrown '' does not reference prev-sent '')
               | Inr True \<Rightarrow>
                  (case merge t pmId of
                     Inl e \<Rightarrow> Inl e
                   | Inr merged \<Rightarrow>
                      (case mergeContext t pmId ruId of
                         Inl e \<Rightarrow> Inl e
                       | Inr context \<Rightarrow> Inr (m, u, pumId, context)))))))"

text \<open>The state updates of \<^verbatim>\<open>add\<close>, inside its \<^verbatim>\<open>try\<close>.  "update core":\<close>

definition commit_core :: "transcript \<Rightarrow> tmsg \<Rightarrow> mid \<Rightarrow> uid \<Rightarrow> transcript" where
  "commit_core t msg m u =
     t\<lparr> t_uIds := iset_union (t_uIds t) [u],
        t_messages := (t_messages t)(m \<mapsto> msg),
        t_minMessages := (if iset_size (parents msg) = 0 then iset_union (t_minMessages t) [m]
                          else t_minMessages t),
        t_maxMessages := iset_subtract (iset_union (t_maxMessages t) [m]) (parents msg) \<rparr>"

text \<open>"update successors": \<^verbatim>\<open>self._successors.get(m).union(mIdS)\<close> throws on a parent
  without an entry; the parents before it have been updated by then.\<close>

fun commit_successors :: "mid \<Rightarrow> mid list \<Rightarrow> transcript \<Rightarrow> transcript \<times> error option" where
  "commit_successors m [] t = (t, None)"
| "commit_successors m (p # ps) t =
     (case t_successors t p of
        None \<Rightarrow> (t, Some TypeError)
      | Some ss \<Rightarrow>
         commit_successors m ps (t\<lparr> t_successors := (t_successors t)(p \<mapsto> iset_union ss [m]) \<rparr>))"

text \<open>"update overall sequences", "update per-author sequences", "update context".\<close>

definition commit_sequences :: "transcript \<Rightarrow> tmsg \<Rightarrow> mid \<Rightarrow> uid \<Rightarrow> pum \<Rightarrow> ctx \<Rightarrow> transcript" where
  "commit_sequences t msg m u pumId context =
     (let t3 = t\<lparr> t_successors := (t_successors t)(m \<mapsto> []) \<rparr>;
          t4 = t3\<lparr> t_messageIndex := (t_messageIndex t3)(m \<mapsto> t_length t3),
                    t_log := t_log t3 @ [m],
                    t_length := t_length t3 + 1 \<rparr>;
          old = (case pumId of
                   Null \<Rightarrow> []
                 | _ \<Rightarrow> (case t_authorMessages t4 u of None \<Rightarrow> [] | Some ms \<Rightarrow> ms));
          t5 = t4\<lparr> t_authorMessages := (t_authorMessages t4)(u \<mapsto> old @ [m]),
                    t_authorIndex := (t_authorIndex t4)(m \<mapsto> length (old @ [m]) - 1) \<rparr>
      in t5\<lparr> t_context := (t_context t5)(m \<mapsto> context) \<rparr>)"

text \<open>The predicate of the walk in \<^verbatim>\<open>add\<close>:
  \<^verbatim>\<open>function(m) { return self._unackby.get(m).has(uId); }\<close>.\<close>

definition unacked_by :: "(mid \<rightharpoonup> uid list) \<Rightarrow> uid \<Rightarrow> mid \<Rightarrow> error + bool" where
  "unacked_by unackby u am =
     (case unackby am of None \<Rightarrow> Inl TypeError | Some us \<Rightarrow> Inr (iset_has us u))"

text \<open>"update unacked": the body of the loop over the ancestors.  A yielded ancestor has
  passed the predicate, so its entry exists.\<close>

definition ackStep :: "uid \<Rightarrow> mid \<Rightarrow> transcript \<times> mid list \<Rightarrow> transcript \<times> mid list" where
  "ackStep u am st =
     (case st of (t, acked) \<Rightarrow>
        (let r = iset_subtract (case t_unackby t am of None \<Rightarrow> [] | Some us \<Rightarrow> us) [u];
             t' = t\<lparr> t_unackby := (t_unackby t)(am \<mapsto> r) \<rparr>
         in (t', if iset_size r = 0 then iset_union acked [am] else acked)))"

text \<open>\<^verbatim>\<open>_invalidateCaches(uId)\<close>: a falsy \<^verbatim>\<open>uId\<close> (the empty string) clears the whole
  \<^verbatim>\<open>_cacheBy\<close>.\<close>

definition invalidateCaches :: "uid \<Rightarrow> transcript \<Rightarrow> transcript" where
  "invalidateCaches u t =
     t\<lparr> t_cacheUnacked := None,
        t_cacheBy := (if u = [] then Map.empty else (t_cacheBy t)(u := None)) \<rparr>"

definition commit_unacked :: "transcript \<Rightarrow> tmsg \<Rightarrow> mid \<Rightarrow> uid \<Rightarrow> transcript \<times> (error + mid list)" where
  "commit_unacked t msg m u =
     (let t7 = t\<lparr> t_unackby := (t_unackby t)(m \<mapsto> readers msg),
                   t_unacked := iset_union (t_unacked t) [m] \<rparr>
      in case iterAncestors t7 (parents msg) (unacked_by (t_unackby t7) u) of
           Inl e \<Rightarrow> (t7, Inl e)
         | Inr anc \<Rightarrow>
            (case fold (ackStep u) anc (t7, if iset_size (readers msg) = 0 then [m] else []) of
               (t8, acked) \<Rightarrow>
                 (let t9 = t8\<lparr> t_unacked := iset_subtract (t_unacked t8) acked \<rparr>
                  in (invalidateCaches u t9, Inr (sortMIds t9 acked)))))"

definition commit :: "transcript \<Rightarrow> tmsg \<Rightarrow> mid \<Rightarrow> uid \<Rightarrow> pum \<Rightarrow> ctx \<Rightarrow> transcript \<times> (error + mid list)" where
  "commit t msg m u pumId context =
     (case commit_successors m (parents msg) (commit_core t msg m u) of
        (t2, Some e) \<Rightarrow> (t2, Inl e)
      | (t2, None) \<Rightarrow> commit_unacked (commit_sequences t2 msg m u pumId context) msg m u)"

text \<open>\<^verbatim>\<open>add\<close>: the transcript after the call and the list returned or the error thrown.\<close>

definition bt_add :: "merger \<Rightarrow> transcript \<Rightarrow> tmsg \<Rightarrow> transcript \<times> (error + mid list)" where
  "bt_add merge t msg =
     (if t_fubar t
        then (t, Inl (Thrown ''something horrible happened previously, refusing all operations''))
      else case add_checks merge t msg of
        Inl e \<Rightarrow> (t, Inl e)
      | Inr (m, u, pumId, context) \<Rightarrow>
         (case commit t msg m u pumId context of
            (t', Inl e) \<Rightarrow> (t'\<lparr> t_fubar := True \<rparr>, Inl e)
          | (t', Inr acked) \<Rightarrow> (t', Inr acked)))"

text \<open>The transcripts a caller can build: from the empty one by \<^verbatim>\<open>add\<close>, \<^verbatim>\<open>by\<close> and
  \<^verbatim>\<open>unacked\<close>, the operations that write.\<close>

inductive reachable :: "merger \<Rightarrow> transcript \<Rightarrow> bool" for merge :: merger where
  r_new: "reachable merge BaseTranscript"
| r_add: "reachable merge t \<Longrightarrow> reachable merge (fst (bt_add merge t msg))"
| r_by: "reachable merge t \<Longrightarrow> reachable merge (fst (bt_by t u))"
| r_unacked: "reachable merge t \<Longrightarrow> reachable merge (fst (bt_unacked t))"

section \<open>The message log (mpenc/impl/transcript.js)\<close>

text \<open>
  \<^verbatim>\<open>DefaultMessageLog\<close>.  Transcript objects are map keys by identity: they are
  named by a number.  \<open>l_seq\<close> is the array the log itself is.
\<close>

type_synonym tid = nat

record message_log =
  l_seq :: "mid list"
  l_messageIndex :: "mid \<rightharpoonup> nat"
  l_parents :: "mid list list"
  l_transcripts :: "tid list"
  l_transcriptParents :: "tid \<rightharpoonup> mid list"
  l_lastTranscript :: "tid option"

definition DefaultMessageLog :: message_log where
  "DefaultMessageLog =
     \<lparr> l_seq = [], l_messageIndex = Map.empty, l_parents = [], l_transcripts = [],
       l_transcriptParents = Map.empty, l_lastTranscript = None \<rparr>"

definition log_has :: "message_log \<Rightarrow> mid \<Rightarrow> bool" where
  "log_has L m = (l_messageIndex L m \<noteq> None)"

text \<open>The static \<^verbatim>\<open>MessageLog.resolveEarlier\<close> (mpenc/transcript) is not among the
  sources; it is a parameter.\<close>

type_synonym resolver = "tid \<Rightarrow> mid list \<Rightarrow> error + mid list"

definition log_resolveEarlier :: "resolver \<Rightarrow> message_log \<Rightarrow> tid \<Rightarrow> mid list \<Rightarrow> error + mid list" where
  "log_resolveEarlier resolveEarlier L tscr mIds =
     (case l_transcriptParents L tscr of
        None \<Rightarrow> Inl (AssertionFailed ''invalid transcript: '')
      | Some trParents \<Rightarrow>
         (case resolveEarlier tscr mIds of
            Inl e \<Rightarrow> Inl e
          | Inr r \<Rightarrow>
             (let resolved = (if iset_size r = 0 then trParents else r)
              in if \<not> list_all (log_has L) resolved
                   then Inl (AssertionFailed
                          ''resolved parents not all added to the log yet; this must be done first'')
                 else Inr resolved)))"

text \<open>The subscriber returned is a closure over the log and the transcript.\<close>

datatype subscriber = Subscriber tid

text \<open>\<^verbatim>\<open>getSubscriberFor(transcript, parents)\<close>; \<open>None\<close> is the optional argument left
  out, a list of entries is the \<^verbatim>\<open>Map\<close> from sets of message ids to transcripts.\<close>

definition getSubscriberFor ::
  "resolver \<Rightarrow> message_log \<Rightarrow> tid \<Rightarrow> (mid list \<times> tid) list option
     \<Rightarrow> message_log \<times> (error + subscriber)" where
  "getSubscriberFor resolveEarlier L transcript parentsMap =
     (if (case parentsMap of None \<Rightarrow> False | Some ps \<Rightarrow> length ps > 1)
        then (L, Inl (Thrown ''DefaultMessageLog does not support transcripts with > 1 parent''))
      else
        let parentVal = (case parentsMap of None \<Rightarrow> None | Some [] \<Rightarrow> None | Some (e # _) \<Rightarrow> Some e)
        in case (case parentVal of
                   None \<Rightarrow> Inr []
                 | Some (parentMIds, parentTscr) \<Rightarrow>
                     log_resolveEarlier resolveEarlier L parentTscr (remdups parentMIds)) of
             Inl e \<Rightarrow> (L, Inl e)
           | Inr payloadParents \<Rightarrow>
               (L\<lparr> l_transcriptParents := (l_transcriptParents L)(transcript \<mapsto> payloadParents),
                   l_lastTranscript := Some transcript \<rparr>,
                Inr (Subscriber transcript)))"

section \<open>Invariants of the transcript\<close>

text \<open>
  What the fields of a transcript built through its operations satisfy.  The log has no
  repetition, \<^verbatim>\<open>_messageIndex\<close> is the position in the log, and the recorded messages are
  those of the log.
\<close>

definition inv_log :: "transcript \<Rightarrow> bool" where
  "inv_log t \<longleftrightarrow>
     distinct (t_log t) \<and> t_length t = length (t_log t)
     \<and> (\<forall>m i. (t_messageIndex t m = Some i) = (i < length (t_log t) \<and> t_log t ! i = m))
     \<and> dom (t_messages t) = set (t_log t)"

text \<open>A recorded message is stored under its id, has an author, and its parents have a
  smaller index than it has.\<close>

definition inv_msgs :: "transcript \<Rightarrow> bool" where
  "inv_msgs t \<longleftrightarrow>
     (\<forall>m msg. t_messages t m = Some msg \<longrightarrow>
        mId msg = Some m \<and> author msg \<noteq> None
        \<and> (\<forall>p \<in> set (parents msg). idx_gt (t_messageIndex t m) (t_messageIndex t p)))"

text \<open>\<^verbatim>\<open>_authorMessages\<close> and \<^verbatim>\<open>_authorIndex\<close> are each other's inverse on the recorded
  messages.\<close>

definition inv_authors :: "transcript \<Rightarrow> bool" where
  "inv_authors t \<longleftrightarrow>
     (\<forall>u ms. t_authorMessages t u = Some ms \<longrightarrow>
        ms \<noteq> []
        \<and> (\<forall>i < length ms. t_authorIndex t (ms ! i) = Some i
              \<and> (\<exists>msg. t_messages t (ms ! i) = Some msg \<and> author msg = Some u)))
     \<and> (\<forall>m msg u. t_messages t m = Some msg \<and> author msg = Some u \<longrightarrow>
          (\<exists>ms i. t_authorMessages t u = Some ms \<and> t_authorIndex t m = Some i
                   \<and> i < length ms \<and> ms ! i = m))"

text \<open>Among the messages of one author, the author index and the index in the log grow
  together.\<close>

definition inv_order :: "transcript \<Rightarrow> bool" where
  "inv_order t \<longleftrightarrow>
     (\<forall>a b ma mb i j. t_messages t a = Some ma \<and> t_messages t b = Some mb
        \<and> author ma = author mb \<and> t_authorIndex t a = Some i \<and> t_authorIndex t b = Some j
        \<and> i \<le> j \<longrightarrow> idx_le (t_messageIndex t a) (t_messageIndex t b))"

text \<open>A message named by the context of \<open>m\<close> for the user \<open>u\<close> is a recorded message of
  \<open>u\<close> with a smaller index than \<open>m\<close>.\<close>

definition ctx_entry_ok :: "transcript \<Rightarrow> nat \<Rightarrow> uid option \<Rightarrow> mid \<Rightarrow> bool" where
  "ctx_entry_ok t j u p \<longleftrightarrow>
     (\<exists>pm i. t_messages t p = Some pm \<and> author pm = u \<and> t_messageIndex t p = Some i \<and> i < j)"

definition inv_context :: "transcript \<Rightarrow> bool" where
  "inv_context t \<longleftrightarrow>
     (\<forall>m c u p. t_context t m = Some c \<and> (u, Some p) \<in> set c \<longrightarrow>
        (\<exists>j. t_messageIndex t m = Some j \<and> ctx_entry_ok t j u p))"

text \<open>Every message of the log has its successors, its unacked readers and its context
  recorded, and no other id has unacked readers.\<close>

definition inv_tables :: "transcript \<Rightarrow> bool" where
  "inv_tables t \<longleftrightarrow>
     (\<forall>m \<in> set (t_log t). t_successors t m \<noteq> None \<and> t_unackby t m \<noteq> None
                               \<and> t_context t m \<noteq> None)
     \<and> dom (t_unackby t) \<subseteq> set (t_log t)"

text \<open>A cached \<^verbatim>\<open>by(uId)\<close> is the current list of the author.\<close>

definition inv_cache :: "transcript \<Rightarrow> bool" where
  "inv_cache t \<longleftrightarrow> (\<forall>u c. t_cacheBy t u = Some c \<longrightarrow> t_authorMessages t u = Some c)"

definition wf_transcript :: "transcript \<Rightarrow> bool" where
  "wf_transcript t \<longleftrightarrow>
     \<not> t_fubar t \<and> inv_log t \<and> inv_msgs t \<and> inv_authors t \<and> inv_order t \<and> inv_context t
     \<and> inv_tables t \<and> inv_cache t"

text \<open>The unacked readers of \<open>x\<close> once \<open>u\<close> has acknowledged it.\<close>

definition unackby_without :: "transcript \<Rightarrow> uid \<Rightarrow> mid \<Rightarrow> uid list" where
  "unackby_without t u x =
     iset_subtract (case t_unackby t x of None \<Rightarrow> [] | Some us \<Rightarrow> us) [u]"

text \<open>The author's earlier messages, as \<^verbatim>\<open>add\<close> finds them.\<close>

definition earlier_by :: "transcript \<Rightarrow> uid \<Rightarrow> pum \<Rightarrow> mid list" where
  "earlier_by t u pumId =
     (case pumId of
        Null \<Rightarrow> []
      | _ \<Rightarrow> (case t_authorMessages t u of None \<Rightarrow> [] | Some ms \<Rightarrow> ms))"

text \<open>The transcript after an accepted message, in the fields that \<^verbatim>\<open>add\<close> writes
  without a loop; the successors, the unacked readers and the caches come on top.\<close>

definition accepted :: "transcript \<Rightarrow> tmsg \<Rightarrow> mid \<Rightarrow> uid \<Rightarrow> pum \<Rightarrow> ctx \<Rightarrow> transcript" where
  "accepted t msg m u pumId c =
     t\<lparr> t_uIds := iset_union (t_uIds t) [u],
        t_messages := (t_messages t)(m \<mapsto> msg),
        t_minMessages := (if iset_size (parents msg) = 0 then iset_union (t_minMessages t) [m]
                          else t_minMessages t),
        t_maxMessages := iset_subtract (iset_union (t_maxMessages t) [m]) (parents msg),
        t_length := t_length t + 1,
        t_messageIndex := (t_messageIndex t)(m \<mapsto> t_length t),
        t_log := t_log t @ [m],
        t_authorMessages := (t_authorMessages t)(u \<mapsto> earlier_by t u pumId @ [m]),
        t_authorIndex := (t_authorIndex t)(m \<mapsto> length (earlier_by t u pumId)),
        t_context := (t_context t)(m \<mapsto> c) \<rparr>"

section \<open>Concrete inputs\<close>

text \<open>A resolver that returns the ids it is given, for the examples of the message log.\<close>

definition resolve_same :: resolver where
  "resolve_same tscr mIds = Inr mIds"

text \<open>
  A toy crypto capability for the examples of the key exchange: the hash and the public
  key prefix a letter, a signature is the key followed by the signed text, and
  verification strips the key again.
\<close>

definition toy_sign :: "string \<Rightarrow> string \<Rightarrow> error + string" where
  "toy_sign text key = Inr (key @ text)"

definition toy_verify :: "string \<Rightarrow> string \<Rightarrow> error + string" where
  "toy_verify sg key =
     (if take (length key) sg = key then Inr (drop (length key) sg)
      else Inl (AssertionFailed ''message decoding error''))"

definition toy_crypto :: "(string, string) crypto" where
  "toy_crypto = \<lparr> sha256 = (#) CHR ''h'', publickey = (#) CHR ''P'',
                  smallrsasign = toy_sign, smallrsaverify = toy_verify \<rparr>"

definition new_member :: "string \<Rightarrow> (string, string) ske_member" where
  "new_member i =
     \<lparr> self_id = i, self_members = [], authenticatedMembers = None, ephemeralPrivKey = None,
       ephemeralPubKey = None, nonce = None, self_nonces = None, ephemeralPubKeys = None,
       sessionId = None, staticPrivKey = None, staticPubKeyDir = None,
       oldEphemeralKeys = Map.empty \<rparr>"

definition keyed_member :: "string \<Rightarrow> (string, string) ske_member" where
  "keyed_member i =
     (new_member i)\<lparr> staticPrivKey := Some (''k'' @ i),
                     staticPubKeyDir := Some [''A'' \<mapsto> ''kA'', ''B'' \<mapsto> ''kB'', ''C'' \<mapsto> ''kC''] \<rparr>"

text \<open>An upflow message from \<open>A\<close> that reaches \<open>B\<close>, the last member.\<close>

definition upflow_to_B :: ske_message where
  "upflow_to_B =
     \<lparr> source = ''A'', dest = ''B'', flow = ''upflow'', members = [''A'', ''B''],
       nonces = [''nA''], pubKeys = [''PA''], sessionSignature = None \<rparr>"

text \<open>
  Member \<open>A\<close> in an established session whose members it holds in the order \<open>A, C, B\<close>,
  with only itself authenticated so far; and the acknowledgement of \<open>B\<close> for that
  session, listing the members in the order \<open>A, B, C\<close>.
\<close>

definition session_ACB :: string where
  "session_ACB = ''hABCnAnBnC''"

definition member_A_in_ACB :: "(string, string) ske_member" where
  "member_A_in_ACB =
     (keyed_member ''A'')\<lparr> self_members := [''A'', ''C'', ''B''],
                           self_nonces := Some [''nA'', ''nC'', ''nB''],
                           ephemeralPubKeys := Some [''PA'', ''PC'', ''PB''],
                           nonce := Some ''nA'', ephemeralPrivKey := Some ''sA'',
                           ephemeralPubKey := Some ''PA'',
                           sessionId := Some session_ACB,
                           authenticatedMembers := Some [Some True, Some False, Some False] \<rparr>"

definition ack_of_B_reordered :: ske_message where
  "ack_of_B_reordered =
     \<lparr> source = ''B'', dest = [], flow = ''downflow'', members = [''A'', ''B'', ''C''],
       nonces = [''nA'', ''nB'', ''nC''], pubKeys = [''PA'', ''PB'', ''PC''],
       sessionSignature = Some (''kB'' @ ''h'' @ ''B'' @ ''PB'' @ ''nB'' @ session_ACB) \<rparr>"

text \<open>The first upflow message, as \<open>A\<close> receives it from its own \<^verbatim>\<open>commit\<close>; and a
  downflow message that opens a session \<open>A, B\<close> with a signature that is not \<open>A\<close>'s
  acknowledgement.\<close>

definition upflow_start :: ske_message where
  "upflow_start =
     \<lparr> source = ''A'', dest = [], flow = ''upflow'', members = [''A'', ''B''],
       nonces = [], pubKeys = [], sessionSignature = None \<rparr>"

definition forged_ack_of_A :: ske_message where
  "forged_ack_of_A =
     \<lparr> source = ''A'', dest = [], flow = ''downflow'', members = [''A'', ''B''],
       nonces = [''nA'', ''nB''], pubKeys = [''PA'', ''PB''],
       sessionSignature = Some ''kAforged'' \<rparr>"

text \<open>For the examples of the transcript: a merger that accepts every set of parents, and
  a few messages among the users \<open>A\<close>, \<open>B\<close> and \<open>C\<close>.\<close>

definition merge_ok :: merger where
  "merge_ok t pmId = Inr []"

definition tmessage :: "mid \<Rightarrow> uid \<Rightarrow> mid list \<Rightarrow> uid list \<Rightarrow> tmsg" where
  "tmessage m u ps rs = \<lparr> mId = Some m, author = Some u, parents = ps, readers = rs, body = [] \<rparr>"

text \<open>Two messages of \<open>A\<close> to \<open>B\<close>, the second on top of the first, and the transcript
  after each.\<close>

definition transcript_1 :: transcript where
  "transcript_1 = fst (bt_add merge_ok BaseTranscript (tmessage ''1'' ''A'' [] [''B'']))"

definition transcript_2 :: transcript where
  "transcript_2 = fst (bt_add merge_ok transcript_1 (tmessage ''2'' ''A'' [''1''] [''B'']))"

section \<open>Properties of the session-ID derivation\<close>

lemma sid_mapping_prefix:
  "k \<le> length mems \<Longrightarrow> length nons = length mems \<Longrightarrow> proto_key \<notin> set mems \<Longrightarrow>
   fold (mapping_set mems nons) [0..<k] Map.empty
     = map_of (rev (zip (take k mems) (take k nons)))"
proof (induction k)
  case 0
  then show ?case by simp
next
  case (Suc k)
  then have k: "k < length mems" "k < length nons" by simp_all
  have "zip (take (Suc k) mems) (take (Suc k) nons)
          = zip (take k mems) (take k nons) @ [(mems ! k, nons ! k)]"
    using k by (simp add: take_Suc_conv_app_nth)
  then have "map_of (rev (zip (take (Suc k) mems) (take (Suc k) nons)))
          = (map_of (rev (zip (take k mems) (take k nons))))(mems ! k \<mapsto> nons ! k)"
    by simp
  moreover have "nonce_at nons k = nons ! k" using k by (simp add: nonce_at_def)
  moreover have "fold (mapping_set mems nons) [0..<k] Map.empty
     = map_of (rev (zip (take k mems) (take k nons)))"
    by (rule Suc.IH) (use Suc.prems in simp_all)
  moreover have "fold (mapping_set mems nons) [0..<Suc k] Map.empty
     = mapping_set mems nons k (fold (mapping_set mems nons) [0..<k] Map.empty)"
    by simp
  moreover have "mems ! k \<noteq> proto_key" using Suc.prems k by (metis nth_mem)
  then have "\<And>m. mapping_set mems nons k m = m(mems ! k \<mapsto> nonce_at nons k)"
    by (simp add: mapping_set_def)
  ultimately show ?case by (simp only:)
qed

lemma map_of_rev_distinct:
  "distinct (map fst xs) \<Longrightarrow> map_of (rev xs) = map_of xs"
proof (induction xs)
  case Nil
  then show ?case by simp
next
  case (Cons p xs)
  obtain k v where p: "p = (k, v)" by (cases p)
  from Cons p have nk: "k \<notin> fst ` set xs" and IH: "map_of (rev xs) = map_of xs" by auto
  have "map_of (rev (p # xs)) = map_of [p] ++ map_of (rev xs)"
    by (simp add: map_of_append)
  also have "\<dots> = (map_of xs)(k \<mapsto> v)"
    using nk IH p by (auto simp: map_add_def fun_eq_iff split: option.splits dest: map_of_SomeD intro: rev_image_eqI)
  finally show ?case using p by simp
qed

lemma sid_mapping_zip:
  assumes "distinct mems" "length nons = length mems" "proto_key \<notin> set mems"
  shows "sid_mapping mems nons = map_of (zip mems nons)"
proof -
  have "sid_mapping mems nons = map_of (rev (zip mems nons))"
    unfolding sid_mapping_def using sid_mapping_prefix [of "length mems" mems nons] assms
    by simp
  also have "\<dots> = map_of (zip mems nons)"
    using assms by (intro map_of_rev_distinct) simp
  finally show ?thesis .
qed

lemma sid_items_concat:
  "sid_items mapping xs (a, b) =
     (a @ concat (filter (\<lambda>pid. pid \<noteq> []) xs),
      b @ concat (map (mapping_get mapping) (filter (\<lambda>pid. pid \<noteq> []) xs)))"
  by (induction xs arbitrary: a b) simp_all

lemma map_fst_insort_key:
  "map fst (insort_key fst p ps) = insort (fst p) (map fst ps)"
  by (induction ps) simp_all

lemma map_fst_sort_key: "map fst (sort_key fst ps) = sort (map fst ps)"
  by (induction ps) (simp_all add: map_fst_insort_key)

lemma mapping_get_zip:
  assumes "distinct mems" "length nons = length mems" "p \<in> set (zip mems nons)"
    "proto_key \<notin> set mems"
  shows "mapping_get (map_of (zip mems nons)) (fst p) = snd p"
proof -
  have "map_of (zip mems nons) (fst p) = Some (snd p)"
    using assms by (intro map_of_is_SomeI) (simp_all add: )
  moreover have "(fst p, snd p) \<in> set (zip mems nons)" using assms(3) by simp
  then have "fst p \<in> set mems" by (rule set_zip_leftD)
  then have "fst p \<noteq> proto_key" using assms(4) by auto
  ultimately show ?thesis by (simp add: mapping_get_def)
qed

lemma computeSid_refines_spec:
  assumes d: "distinct mems" and l: "length nons = length mems" and np: "proto_key \<notin> set mems"
  shows "computeSid H mems nons = sid_spec H mems nons"
proof -
  let ?ps = "sort_key fst (zip mems nons)"
  let ?ne = "\<lambda>pid::string. pid \<noteq> []"
  let ?fs = "filter (\<lambda>p. fst p \<noteq> []) ?ps"
  have srt: "sort mems = map fst ?ps"
    using l by (simp add: map_fst_sort_key)
  have f1: "filter ?ne (sort mems) = map fst ?fs"
    unfolding srt by (simp add: filter_map o_def)
  have "map (mapping_get (map_of (zip mems nons))) (map fst ?fs) = map snd ?fs"
  proof -
    have "\<And>p. p \<in> set ?fs \<Longrightarrow> mapping_get (map_of (zip mems nons)) (fst p) = snd p"
      using d l np by (intro mapping_get_zip) simp_all
    then show ?thesis by simp
  qed
  then have f2: "map (mapping_get (sid_mapping mems nons)) (map fst ?fs) = map snd ?fs"
    by (simp only: sid_mapping_zip [OF d l np])
  show ?thesis
    unfolding computeSid_def sid_spec_def Let_def sid_items_concat
    by (simp only: f1 f2 prod.case append_Nil)
qed

lemma sid_spec_perm:
  assumes d: "distinct mems" and l: "length nons = length mems"
    and p: "mset pi = mset [0..<length mems]"
  shows "sid_spec H (map ((!) mems) pi) (map ((!) nons) pi) = sid_spec H mems nons"
proof -
  let ?z = "zip mems nons"
  have len: "length ?z = length mems" using l by simp
  have "zip (map ((!) mems) pi) (map ((!) nons) pi) = map (\<lambda>i. (mems ! i, nons ! i)) pi"
    by (simp add: zip_map_map zip_same_conv_map)
  also have "\<dots> = map ((!) ?z) pi"
  proof (rule map_cong [OF refl])
    fix i assume "i \<in> set pi"
    then have "i \<in># mset pi" by simp
    then have "i < length mems" unfolding p by simp
    then show "(mems ! i, nons ! i) = ?z ! i" using l by simp
  qed
  finally have z: "zip (map ((!) mems) pi) (map ((!) nons) pi) = map ((!) ?z) pi" .
  have "mset (map ((!) ?z) pi) = image_mset ((!) ?z) (mset pi)"
    by simp
  also have "\<dots> = image_mset ((!) ?z) (mset [0..<length ?z])"
    by (simp only: p len)
  also have "\<dots> = mset ?z"
    by (simp only: mset_map [symmetric] map_nth)
  finally have m: "mset (map ((!) ?z) pi) = mset ?z" .
  have "inj_on fst (set ?z)"
    using d l by (simp add: inj_on_def) (metis distinct_map inj_onD map_fst_zip prod.collapse distinct_zipI1 inj_on_def)
  then have inj: "inj_on fst (set (map ((!) ?z) pi))"
    using m by (metis set_mset_mset)
  have "sort_key fst (map ((!) ?z) pi) = sort_key fst ?z"
    using m inj by (rule sort_key_eq_sort_key)
  then show ?thesis
    unfolding sid_spec_def z by simp
qed

lemma mset_permuted:
  assumes "mset pi = mset [0..<length xs]"
  shows "mset (map ((!) xs) pi) = mset xs"
proof -
  have "mset (map ((!) xs) pi) = image_mset ((!) xs) (mset pi)" by simp
  also have "\<dots> = image_mset ((!) xs) (mset [0..<length xs])" by (simp only: assms)
  also have "\<dots> = mset xs" by (simp only: mset_map [symmetric] map_nth)
  finally show ?thesis .
qed

text \<open>
  For pairwise-distinct member ids none of which is \<^verbatim>\<open>__proto__\<close>, and as many nonces,
  \<^verbatim>\<open>_computeSid\<close> is the hash of the sorted non-empty member ids followed by their nonces
  in that sorted order; and permuting the members together with their nonces does not
  change it.
\<close>

lemma computeSid_ordinary_ids:
  assumes "distinct mems" and "length nons = length mems" and "proto_key \<notin> set mems"
  shows "computeSid H mems nons = sid_spec H mems nons \<and>
         (\<forall>pi. mset pi = mset [0..<length mems] \<longrightarrow>
            computeSid H (map ((!) mems) pi) (map ((!) nons) pi)
              = computeSid H mems nons)"
proof (intro conjI allI impI)
  show r: "computeSid H mems nons = sid_spec H mems nons"
    using assms by (rule computeSid_refines_spec)
  fix pi :: "nat list"
  assume p: "mset pi = mset [0..<length mems]"
  have m: "mset (map ((!) mems) pi) = mset mems" using p by (rule mset_permuted)
  then have "distinct (map ((!) mems) pi)"
    using assms(1) by (metis mset_eq_imp_distinct_iff)
  moreover have "length (map ((!) nons) pi) = length (map ((!) mems) pi)" by simp
  moreover have "proto_key \<notin> set (map ((!) mems) pi)"
    using assms(3) m by (metis set_mset_mset)
  ultimately have "computeSid H (map ((!) mems) pi) (map ((!) nons) pi)
               = sid_spec H (map ((!) mems) pi) (map ((!) nons) pi)"
    by (rule computeSid_refines_spec)
  also have "\<dots> = sid_spec H mems nons"
    using assms(1,2) p by (rule sid_spec_perm)
  finally show "computeSid H (map ((!) mems) pi) (map ((!) nons) pi)
                  = computeSid H mems nons"
    using r by simp
qed

text \<open>
  Claim C6 fails on the code for a member whose id is \<^verbatim>\<open>__proto__\<close>: the nonce of that
  member never enters the hash.  The two ids below are distinct and there are as many
  nonces; the session id differs from the hash of the sorted ids and their nonces, and it
  is the same for another nonce of that member.
\<close>

theorem computeSid_proto_member_loses_nonce:
  "distinct [''__proto__'', ''a''] \<and> length [''n1'', ''n2''] = length [''__proto__'', ''a'']
   \<and> computeSid id [''__proto__'', ''a''] [''n1'', ''n2''] = ''__proto__a[object Object]n2''
   \<and> sid_spec id [''__proto__'', ''a''] [''n1'', ''n2''] = ''__proto__an1n2''
   \<and> computeSid id [''__proto__'', ''a''] [''other'', ''n2'']
         = computeSid id [''__proto__'', ''a''] [''n1'', ''n2'']"
  by (simp add: computeSid_def sid_spec_def sid_mapping_def mapping_set_def mapping_get_def
        nonce_at_def proto_key_def)

section \<open>Properties of the key exchange\<close>

lemma indexOf_Some_iff: "indexOf xs x = Some i \<Longrightarrow> i < length xs \<and> xs ! i = x"
  by (induction xs arbitrary: i) (auto split: if_splits)

lemma indexOf_None_iff: "indexOf xs x = None \<longleftrightarrow> x \<notin> set xs"
  by (induction xs) auto

lemma sid_of_AB:
  "computeSid ((#) CHR ''h'') [''A'', ''B''] [''nA'', ''nB''] = ''hABnAnB''"
  by (simp add: computeSid_def sid_mapping_def mapping_set_def mapping_get_def nonce_at_def
        proto_key_def)

lemma sid_of_reordered_ack:
  "computeSid ((#) CHR ''h'') [''A'', ''B'', ''C''] [''nA'', ''nB'', ''nC''] = ''hABCnAnBnC''"
  by (simp add: computeSid_def sid_mapping_def mapping_set_def mapping_get_def nonce_at_def
        proto_key_def)

text \<open>
  Claim C7 as stated fails: the message \<open>upflow_to_B\<close> meets the four preconditions, and
  \<open>B\<close> is its last member, but a member whose static private key has not been set
  (\<^verbatim>\<open>staticPrivKey = null\<close>, as the constructor leaves it) throws in
  \<^verbatim>\<open>_computeSessionSig\<close> and returns no message.
\<close>

theorem upflow_without_static_key_counterexample:
  "distinct (members upflow_to_B)
   \<and> length (nonces upflow_to_B) \<le> length (members upflow_to_B)
   \<and> length (pubKeys upflow_to_B) \<le> length (members upflow_to_B)
   \<and> self_id (new_member ''B'') \<in> set (members upflow_to_B)
   \<and> snd (upflow toy_crypto ''nB'' ''sB'' (new_member ''B'') upflow_to_B) = Inl TypeError"
  by (simp add: upflow_def upflow_to_B_def new_member_def toy_crypto_def noDuplicatesInList_def
        Let_def computeSessionSig_def truthy_def sid_of_AB arrayMaker_def array_set_def)

text \<open>
  Claim C7, amended.  For an upflow message with no duplicate members, at most as many
  nonces and public keys as members, and the member at position \<open>myPos\<close>: when the member
  is not the last one, \<^verbatim>\<open>upflow\<close> returns the message with the fresh nonce and the
  ephemeral public key appended, addressed to the next member, from the member.  When it
  is the last one and the session signature can be computed (the session id and the
  ephemeral public key are not empty, the static private key is set and signs the hash of
  the acknowledgement), \<^verbatim>\<open>upflow\<close> returns the message with the two entries appended,
  flow downflow, an empty destination and the member's session signature; the member
  keeps the session id, and its authenticated list is all false but for its own slot.
\<close>

theorem upflow_appends_nonce_and_key:
  assumes "distinct (members message)"
    and "length (nonces message) \<le> length (members message)"
    and "length (pubKeys message) \<le> length (members message)"
    and "indexOf (members message) (self_id self) = Some myPos"
  shows "(myPos \<noteq> length (members message) - 1 \<longrightarrow>
           (\<exists>self' message'. upflow C newNonce newPrivKey self message = (self', Inr message')
              \<and> nonces message' = nonces message @ [newNonce]
              \<and> pubKeys message' = pubKeys message @ [publickey C newPrivKey]
              \<and> dest message' = members message ! (myPos + 1)
              \<and> source message' = self_id self))
       \<and> (myPos = length (members message) - 1
            \<and> sid = computeSid (sha256 C) (members message) (nonces message @ [newNonce])
            \<and> sid \<noteq> [] \<and> publickey C newPrivKey \<noteq> []
            \<and> staticPrivKey self = Some sk
            \<and> smallrsasign C (sha256 C (self_id self @ publickey C newPrivKey @ newNonce @ sid)) sk
                  = Inr sg \<longrightarrow>
           (\<exists>self' message'. upflow C newNonce newPrivKey self message = (self', Inr message')
              \<and> nonces message' = nonces message @ [newNonce]
              \<and> pubKeys message' = pubKeys message @ [publickey C newPrivKey]
              \<and> flow message' = ''downflow'' \<and> dest message' = [] \<and> source message' = self_id self
              \<and> sessionSignature message' = Some sg
              \<and> computeSessionSig C self' = Inr sg
              \<and> sessionId self' = Some sid
              \<and> authenticatedMembers self'
                    = Some ((replicate (length (members message)) (Some False))[myPos := Some True])))"
proof (intro conjI impI)
  assume np: "myPos \<noteq> length (members message) - 1"
  show "\<exists>self' message'. upflow C newNonce newPrivKey self message = (self', Inr message')
              \<and> nonces message' = nonces message @ [newNonce]
              \<and> pubKeys message' = pubKeys message @ [publickey C newPrivKey]
              \<and> dest message' = members message ! (myPos + 1)
              \<and> source message' = self_id self"
    using assms np by (simp add: upflow_def noDuplicatesInList_def Let_def)
next
  assume a: "myPos = length (members message) - 1
            \<and> sid = computeSid (sha256 C) (members message) (nonces message @ [newNonce])
            \<and> sid \<noteq> [] \<and> publickey C newPrivKey \<noteq> []
            \<and> staticPrivKey self = Some sk
            \<and> smallrsasign C (sha256 C (self_id self @ publickey C newPrivKey @ newNonce @ sid)) sk
                  = Inr sg"
  let ?sid = "computeSid (sha256 C) (members message) (nonces message @ [newNonce])"
  let ?pub = "publickey C newPrivKey"
  let ?ack = "self_id self @ ?pub @ newNonce @ ?sid"
  from a have sid: "sid = ?sid" by simp
  from a sid have sidne: "?sid \<noteq> []" by simp
  from a sid have sg: "smallrsasign C (sha256 C ?ack) sk = Inr sg" by simp
  from a have last: "myPos = length (members message) - 1" and pub: "?pub \<noteq> []"
    and key: "staticPrivKey self = Some sk" by simp_all
  have pos: "myPos < length (members message)" using assms(4) indexOf_Some_iff by fastforce
  show "\<exists>self' message'. upflow C newNonce newPrivKey self message = (self', Inr message')
              \<and> nonces message' = nonces message @ [newNonce]
              \<and> pubKeys message' = pubKeys message @ [publickey C newPrivKey]
              \<and> flow message' = ''downflow'' \<and> dest message' = [] \<and> source message' = self_id self
              \<and> sessionSignature message' = Some sg
              \<and> computeSessionSig C self' = Inr sg
              \<and> sessionId self' = Some sid
              \<and> authenticatedMembers self'
                    = Some ((replicate (length (members message)) (Some False))[myPos := Some True])"
    unfolding sid
    using assms last pub key sg sidne pos
    by (simp add: upflow_def noDuplicatesInList_def Let_def computeSessionSig_def truthy_def
          str_of_def arrayMaker_def array_set_def)
qed

theorem upflow_appends_nonce_and_key_witness:
  "indexOf (members upflow_start) (self_id (keyed_member ''A'')) = Some 0
   \<and> (\<exists>self' message'. upflow toy_crypto ''nA'' ''sA'' (keyed_member ''A'') upflow_start
                          = (self', Inr message')
         \<and> nonces message' = [''nA''] \<and> pubKeys message' = [''PsA'']
         \<and> dest message' = ''B'' \<and> source message' = ''A'')
   \<and> indexOf (members upflow_to_B) (self_id (keyed_member ''B'')) = Some 1
   \<and> (\<exists>self' message'. upflow toy_crypto ''nB'' ''sB'' (keyed_member ''B'') upflow_to_B
                          = (self', Inr message')
         \<and> nonces message' = [''nA'', ''nB''] \<and> pubKeys message' = [''PA'', ''PsB'']
         \<and> flow message' = ''downflow'' \<and> dest message' = [] \<and> source message' = ''B''
         \<and> sessionSignature message' = Some ''kBhBPsBnBhABnAnB''
         \<and> sessionId self' = Some ''hABnAnB''
         \<and> authenticatedMembers self' = Some [Some False, Some True])"
proof -
  have 1: "indexOf (members upflow_start) (self_id (keyed_member ''A'')) = Some 0"
    by (simp add: upflow_start_def keyed_member_def new_member_def)
  have 2: "indexOf (members upflow_to_B) (self_id (keyed_member ''B'')) = Some 1"
    by (simp add: upflow_to_B_def keyed_member_def new_member_def)
  have a: "distinct (members upflow_start)" "length (nonces upflow_start) \<le> length (members upflow_start)"
    "length (pubKeys upflow_start) \<le> length (members upflow_start)"
    by (simp_all add: upflow_start_def)
  have b: "distinct (members upflow_to_B)" "length (nonces upflow_to_B) \<le> length (members upflow_to_B)"
    "length (pubKeys upflow_to_B) \<le> length (members upflow_to_B)"
    by (simp_all add: upflow_to_B_def)
  have s: "''hABnAnB'' = computeSid (sha256 toy_crypto) (members upflow_to_B) (nonces upflow_to_B @ [''nB''])"
    by (simp add: upflow_to_B_def toy_crypto_def sid_of_AB)
  have k: "staticPrivKey (keyed_member ''B'') = Some ''kB''"
    by (simp add: keyed_member_def new_member_def)
  have g: "smallrsasign toy_crypto
             (sha256 toy_crypto (self_id (keyed_member ''B'') @ publickey toy_crypto ''sB'' @ ''nB''
                                   @ ''hABnAnB'')) ''kB''
             = Inr ''kBhBPsBnBhABnAnB''"
    by (simp add: toy_crypto_def toy_sign_def keyed_member_def new_member_def)
  have pk: "publickey toy_crypto ''sB'' \<noteq> []" by (simp add: toy_crypto_def)
  from upflow_appends_nonce_and_key [where C = toy_crypto and newNonce = "''nA''"
         and newPrivKey = "''sA''" and sk = "''kA''" and sid = "[]" and sg = "[]", OF a 1]
  have r1: "\<exists>self' message'. upflow toy_crypto ''nA'' ''sA'' (keyed_member ''A'') upflow_start
                          = (self', Inr message')
         \<and> nonces message' = [''nA''] \<and> pubKeys message' = [''PsA'']
         \<and> dest message' = ''B'' \<and> source message' = ''A''"
    by (simp add: upflow_start_def toy_crypto_def keyed_member_def new_member_def)
  have l: "1 = length (members upflow_to_B) - 1" by (simp add: upflow_to_B_def)
  have ne: "''hABnAnB'' \<noteq> []" by simp
  have h: "1 = length (members upflow_to_B) - 1
            \<and> ''hABnAnB'' = computeSid (sha256 toy_crypto) (members upflow_to_B)
                                (nonces upflow_to_B @ [''nB''])
            \<and> ''hABnAnB'' \<noteq> [] \<and> publickey toy_crypto ''sB'' \<noteq> []
            \<and> staticPrivKey (keyed_member ''B'') = Some ''kB''
            \<and> smallrsasign toy_crypto
                  (sha256 toy_crypto (self_id (keyed_member ''B'') @ publickey toy_crypto ''sB''
                                        @ ''nB'' @ ''hABnAnB'')) ''kB''
                = Inr ''kBhBPsBnBhABnAnB''"
    using l s ne pk k g by (intro conjI)
  have v: "nonces upflow_to_B @ [''nB''] = [''nA'', ''nB'']"
    "pubKeys upflow_to_B @ [publickey toy_crypto ''sB''] = [''PA'', ''PsB'']"
    "self_id (keyed_member ''B'') = ''B''"
    "(replicate (length (members upflow_to_B)) (Some False))[1 := Some True]
       = [Some False, Some True]"
    by (simp_all add: upflow_to_B_def toy_crypto_def keyed_member_def new_member_def)
  from upflow_appends_nonce_and_key [where C = toy_crypto and newNonce = "''nB''"
         and newPrivKey = "''sB''" and sk = "''kB''" and sid = "''hABnAnB''"
         and sg = "''kBhBPsBnBhABnAnB''", OF b 2, THEN conjunct2, THEN mp, OF h]
  obtain self' message' where
    u: "upflow toy_crypto ''nB'' ''sB'' (keyed_member ''B'') upflow_to_B = (self', Inr message')"
    and f: "nonces message' = nonces upflow_to_B @ [''nB'']"
      "pubKeys message' = pubKeys upflow_to_B @ [publickey toy_crypto ''sB'']"
      "flow message' = ''downflow''" "dest message' = []"
      "source message' = self_id (keyed_member ''B'')"
      "sessionSignature message' = Some ''kBhBPsBnBhABnAnB''"
      "sessionId self' = Some ''hABnAnB''"
      "authenticatedMembers self'
         = Some ((replicate (length (members upflow_to_B)) (Some False))[1 := Some True])"
    by (elim exE conjE)
  have r2: "\<exists>self' message'. upflow toy_crypto ''nB'' ''sB'' (keyed_member ''B'') upflow_to_B
                          = (self', Inr message')
         \<and> nonces message' = [''nA'', ''nB''] \<and> pubKeys message' = [''PA'', ''PsB'']
         \<and> flow message' = ''downflow'' \<and> dest message' = [] \<and> source message' = ''B''
         \<and> sessionSignature message' = Some ''kBhBPsBnBhABnAnB''
         \<and> sessionId self' = Some ''hABnAnB''
         \<and> authenticatedMembers self' = Some [Some False, Some True]"
    apply (rule exI [of _ self'])
    apply (rule exI [of _ message'])
    using u f unfolding v by (intro conjI)
  from 1 r1 2 r2 show ?thesis by (intro conjI)
qed

text \<open>
  Claim C8 fails on the code in the branch for a known session.  Member \<open>A\<close> holds the
  session's members in the order \<open>A, C, B\<close>; the acknowledgement of \<open>B\<close> lists them in
  the order \<open>A, B, C\<close>.  The session id is the same, the signature of \<open>B\<close> verifies
  against the slots of \<open>A\<close>'s own lists, and \<^verbatim>\<open>downflow\<close> returns \<^verbatim>\<open>null\<close>; but the slot
  it sets is the sender's position in the message, which in \<open>A\<close>'s lists is the slot
  of \<open>C\<close>.  The slot of \<open>B\<close> stays false.
\<close>

theorem downflow_reordered_ack_marks_other_slot:
  "noDuplicatesInList (members ack_of_B_reordered)
   \<and> verifySessionSig toy_crypto member_A_in_ACB (source ack_of_B_reordered)
        (sessionSignature ack_of_B_reordered) = Inr True
   \<and> sessionId member_A_in_ACB
        = Some (computeSid (sha256 toy_crypto) (members ack_of_B_reordered) (nonces ack_of_B_reordered))
   \<and> downflow toy_crypto member_A_in_ACB ack_of_B_reordered
        = (member_A_in_ACB\<lparr> authenticatedMembers := Some [Some True, Some True, Some False] \<rparr>,
           Inr None)
   \<and> indexOf (self_members member_A_in_ACB) ''B'' = Some 2
   \<and> indexOf (self_members member_A_in_ACB) ''C'' = Some 1"
  by (simp add: downflow_def ack_of_B_reordered_def member_A_in_ACB_def keyed_member_def
        new_member_def toy_crypto_def toy_verify_def noDuplicatesInList_def session_ACB_def
        Let_def verifySessionSig_def truthy_def str_of_def nonce_at_def
        sid_of_reordered_ack arrayMaker_def array_set_def)

text \<open>In general, in the branch for a known session the slot written is the position of
  the sender in the message's member list.\<close>

lemma downflow_known_session_slot:
  assumes "distinct (members message)"
    and "sessionId self = Some (computeSid (sha256 C) (members message) (nonces message))"
    and "verifySessionSig C self (source message) (sessionSignature message) = Inr True"
    and "authenticatedMembers self = Some am"
  shows "downflow C self message
           = (self\<lparr> authenticatedMembers :=
                       Some (array_set am (indexOf (members message) (source message)) True) \<rparr>,
              Inr None)"
  using assms by (simp add: downflow_def noDuplicatesInList_def Let_def)

text \<open>
  Claim C10.  A downflow message that lists the member, whose session id is not the
  member's current one, and whose signature decrypts to something else than the hash of
  the sender's acknowledgement: \<^verbatim>\<open>downflow\<close> throws the authentication assertion, and
  the member it leaves behind has the session id, members, nonces and public keys of the
  rejected message and an authenticated list with only its own slot true.
\<close>

theorem downflow_new_session_not_atomic:
  assumes "distinct (members message)"
    and "indexOf (members message) (self_id self) = Some myPos"
    and "sid = computeSid (sha256 C) (members message) (nonces message)"
    and "sessionId self \<noteq> Some sid" and "sid \<noteq> []"
    and "indexOf (members message) (source message) = Some senderPos"
    and "senderPos < length (pubKeys message)" and "pubKeys message ! senderPos \<noteq> []"
    and "staticPubKeyDir self = Some dir" and "dir (source message) = Some pubkey"
    and "sessionSignature message = Some sg"
    and "smallrsaverify C sg pubkey = Inr decrypted"
    and "decrypted \<noteq> sha256 C (source message @ pubKeys message ! senderPos
                                  @ nonce_at (nonces message) senderPos @ sid)"
  shows "\<exists>self' text. downflow C self message = (self', Inl (AssertionFailed text))
           \<and> text = ''Authentication of member failed: ''
           \<and> sessionId self' = Some sid
           \<and> self_members self' = members message
           \<and> self_nonces self' = Some (nonces message)
           \<and> ephemeralPubKeys self' = Some (pubKeys message)
           \<and> authenticatedMembers self'
                = Some ((replicate (length (members message)) (Some False))[myPos := Some True])"
proof -
  have pos: "myPos < length (members message)" using assms(2) indexOf_Some_iff by fastforce
  show ?thesis
    using assms pos
    by (simp add: downflow_def noDuplicatesInList_def Let_def verifySessionSig_def truthy_def
          str_of_def arrayMaker_def array_set_def)
qed

theorem downflow_new_session_not_atomic_witness:
  "sessionId (keyed_member ''B'') = None
   \<and> (\<exists>self'. downflow toy_crypto (keyed_member ''B'') forged_ack_of_A
                  = (self', Inl (AssertionFailed ''Authentication of member failed: ''))
         \<and> sessionId self' = Some ''hABnAnB''
         \<and> self_members self' = [''A'', ''B'']
         \<and> self_nonces self' = Some [''nA'', ''nB'']
         \<and> ephemeralPubKeys self' = Some [''PA'', ''PB'']
         \<and> authenticatedMembers self' = Some [Some False, Some True])"
proof -
  have s: "''hABnAnB'' = computeSid (sha256 toy_crypto) (members forged_ack_of_A) (nonces forged_ack_of_A)"
    by (simp add: forged_ack_of_A_def toy_crypto_def sid_of_AB)
  have n: "sessionId (keyed_member ''B'') = None"
    by (simp add: keyed_member_def new_member_def)
  from downflow_new_session_not_atomic [where message = forged_ack_of_A
         and self = "keyed_member ''B''" and myPos = 1 and sid = "''hABnAnB''" and C = toy_crypto
         and senderPos = 0 and dir = "[''A'' \<mapsto> ''kA'', ''B'' \<mapsto> ''kB'', ''C'' \<mapsto> ''kC'']"
         and pubkey = "''kA''" and sg = "''kAforged''" and decrypted = "''forged''", OF _ _ s]
  have "\<exists>self' text. downflow toy_crypto (keyed_member ''B'') forged_ack_of_A
                  = (self', Inl (AssertionFailed text))
         \<and> text = ''Authentication of member failed: ''
         \<and> sessionId self' = Some ''hABnAnB''
         \<and> self_members self' = [''A'', ''B'']
         \<and> self_nonces self' = Some [''nA'', ''nB'']
         \<and> ephemeralPubKeys self' = Some [''PA'', ''PB'']
         \<and> authenticatedMembers self' = Some [Some False, Some True]"
    by (simp add: forged_ack_of_A_def keyed_member_def new_member_def toy_crypto_def
          toy_verify_def nonce_at_def)
  with n show ?thesis by blast
qed

section \<open>Properties of the message log\<close>

text \<open>
  Claim C9 as stated fails: with exactly one parent, \<^verbatim>\<open>getSubscriberFor\<close> asserts that
  the parent transcript is known to the log, and throws when it is not.
\<close>

theorem getSubscriberFor_single_parent_counterexample:
  "getSubscriberFor resolve_same DefaultMessageLog 1 (Some [([''m''], 0)])
     = (DefaultMessageLog, Inl (AssertionFailed ''invalid transcript: ''))"
  by (simp add: getSubscriberFor_def log_resolveEarlier_def DefaultMessageLog_def)

lemma iset_size_0: "iset_size xs = 0 \<longleftrightarrow> xs = []"
  by (cases xs) (auto simp: iset_size_def)

text \<open>
  Claim C9, amended.  More than one entry in the parents map is an error that leaves the log
  as it was.  No parents map, or an empty one, gives a subscriber.  Exactly one entry
  gives a subscriber when the parent transcript is registered with the log, the resolver
  returns, and every resolved parent is in the log; otherwise it is an error.
\<close>

theorem getSubscriberFor_parent_count:
  "(length ps > 1 \<longrightarrow> (\<exists>e. getSubscriberFor r L tr (Some ps) = (L, Inl e)))
   \<and> (\<exists>L'. getSubscriberFor r L tr None = (L', Inr (Subscriber tr)))
   \<and> (\<exists>L'. getSubscriberFor r L tr (Some []) = (L', Inr (Subscriber tr)))
   \<and> ((\<exists>L'. getSubscriberFor r L tr (Some [(ms, pt)]) = (L', Inr (Subscriber tr)))
        \<longleftrightarrow> (\<exists>trParents res. l_transcriptParents L pt = Some trParents
               \<and> r pt (remdups ms) = Inr res
               \<and> list_all (log_has L) (if res = [] then trParents else res)))
   \<and> ((\<exists>e. getSubscriberFor r L tr (Some [(ms, pt)]) = (L, Inl e))
        \<longleftrightarrow> \<not> (\<exists>trParents res. l_transcriptParents L pt = Some trParents
               \<and> r pt (remdups ms) = Inr res
               \<and> list_all (log_has L) (if res = [] then trParents else res)))"
  by (auto simp: getSubscriberFor_def log_resolveEarlier_def iset_size_0 Let_def
           split: option.splits sum.splits if_splits)

theorem getSubscriberFor_parent_count_witness:
  "length [([''a''], 0::nat), ([''b''], 1)] > 1
   \<and> (\<exists>e. getSubscriberFor resolve_same DefaultMessageLog 2 (Some [([''a''], 0), ([''b''], 1)])
          = (DefaultMessageLog, Inl e))"
  using getSubscriberFor_parent_count [of "[([''a''], 0), ([''b''], 1)]" resolve_same DefaultMessageLog 2]
  by simp

section \<open>The sanity checks of add\<close>

lemma some_of_True: "some_of f xs = Inr True \<Longrightarrow> \<exists>x \<in> set xs. f x = Inr True"
  by (induction xs) (auto split: sum.splits bool.splits if_splits)

lemma iset_size_pos: "iset_size xs > 0 \<longleftrightarrow> xs \<noteq> []"
  by (cases xs) (auto simp: iset_size_def)

lemma iset_size_card: "iset_size xs = card (set xs)"
  by (simp add: iset_size_def length_remdups_card_conv)

lemma iset_size_map_less:
  assumes "p \<in> set ps" "q \<in> set ps" "p \<noteq> q" "f p = f q"
  shows "iset_size (map f ps) < iset_size ps"
proof -
  have "\<not> inj_on f (set ps)" using assms by (auto simp: inj_on_def)
  then have "card (f ` set ps) \<noteq> card (set ps)"
    by (simp add: inj_on_iff_eq_card)
  moreover have "card (f ` set ps) \<le> card (set ps)" by (simp add: card_image_le)
  ultimately show ?thesis by (simp add: iset_size_card)
qed

lemma add_checks_InrD:
  assumes "add_checks merge t msg = Inr (m, u, pumId, context)"
  shows "mId msg = Some m" "author msg = Some u" "m \<notin> set (parents msg)"
    "t_messages t m = None" "u \<notin> set (readers msg)"
    "\<forall>p \<in> set (parents msg). t_messages t p \<noteq> None"
    "\<forall>p \<in> set (parents msg). \<forall>pmsg. t_messages t p = Some pmsg \<longrightarrow> Some u \<in> set (msg_members pmsg)"
    "\<not> iset_size (parents msg)
         > iset_size (map (\<lambda>pm. case t_messages t pm of None \<Rightarrow> None | Some pmsg \<Rightarrow> author pmsg)
                        (parents msg))"
    "pumId = pumId_of t (Some u)"
    "order_check t pumId (parents msg) = Inr True"
    "\<exists>merged. merge t (parents msg) = Inr merged"
    "mergeContext t (parents msg) (readers msg) = Inr context"
  using assms
  by (auto simp: add_checks_def Let_def iset_has_def iset_size_pos filter_empty_conv order_check_def
           split: option.splits if_splits sum.splits bool.splits)

lemma add_checks_rejects:
  assumes "mId msg = None \<or> author msg = None
     \<or> (\<exists>m. mId msg = Some m \<and> m \<in> set (parents msg))
     \<or> (\<exists>m. mId msg = Some m \<and> t_messages t m \<noteq> None)
     \<or> (\<exists>u. author msg = Some u \<and> u \<in> set (readers msg))
     \<or> (\<exists>p \<in> set (parents msg). t_messages t p = None)
     \<or> (\<exists>p \<in> set (parents msg). \<exists>pmsg. t_messages t p = Some pmsg
            \<and> author msg \<notin> set (msg_members pmsg))
     \<or> (\<exists>p \<in> set (parents msg). \<exists>q \<in> set (parents msg). p \<noteq> q
            \<and> (\<exists>pmsg qmsg. t_messages t p = Some pmsg \<and> t_messages t q = Some qmsg
                   \<and> author pmsg = author qmsg))
     \<or> (\<exists>u ms. author msg = Some u \<and> t_authorMessages t u = Some ms
            \<and> \<not> (\<exists>p \<in> set (parents msg). bt_le t (last ms) p = Inr True))
     \<or> (\<exists>e. merge t (parents msg) = Inl e)"
  shows "\<exists>e. add_checks merge t msg = Inl e"
proof (rule ccontr)
  assume "\<not> (\<exists>e. add_checks merge t msg = Inl e)"
  then obtain m u pumId c where ok: "add_checks merge t msg = Inr (m, u, pumId, c)"
    by (cases "add_checks merge t msg") auto
  note d = add_checks_InrD [OF ok]
  have ord: "\<And>ms. t_authorMessages t u = Some ms
               \<Longrightarrow> \<exists>p \<in> set (parents msg). bt_le t (last ms) p = Inr True"
  proof -
    fix ms assume ms: "t_authorMessages t u = Some ms"
    show "\<exists>p \<in> set (parents msg). bt_le t (last ms) p = Inr True"
    proof (cases "ms = []")
      case True
      with ms d(9,10) show ?thesis
        by (simp add: pumId_of_def order_check_def split: if_splits)
    next
      case False
      with ms d(9) have "pumId = Value (last ms)" by (simp add: pumId_of_def)
      with d(10) have "some_of (bt_le t (last ms)) (parents msg) = Inr True"
        by (simp add: order_check_def)
      then show ?thesis by (rule some_of_True)
    qed
  qed
  have dup: "\<And>p q pmsg qmsg. p \<in> set (parents msg) \<Longrightarrow> q \<in> set (parents msg) \<Longrightarrow> p \<noteq> q
               \<Longrightarrow> t_messages t p = Some pmsg \<Longrightarrow> t_messages t q = Some qmsg
               \<Longrightarrow> author pmsg \<noteq> author qmsg"
  proof
    fix p q pmsg qmsg
    assume h: "p \<in> set (parents msg)" "q \<in> set (parents msg)" "p \<noteq> q"
      "t_messages t p = Some pmsg" "t_messages t q = Some qmsg" "author pmsg = author qmsg"
    let ?f = "\<lambda>pm. case t_messages t pm of None \<Rightarrow> None | Some pmsg \<Rightarrow> author pmsg"
    have "?f p = ?f q" using h by simp
    with h(1-3) have "iset_size (map ?f (parents msg)) < iset_size (parents msg)"
      by (rule iset_size_map_less)
    with d(8) show False by simp
  qed
  from assms d(1-7,11) ord dup show False
    by (elim disjE) (auto simp: )
qed

section \<open>The steps of the commit\<close>

lemma commit_successors_frame:
  "fst (commit_successors m ps t) = t\<lparr> t_successors := t_successors (fst (commit_successors m ps t)) \<rparr>"
proof (induction ps arbitrary: t)
  case Nil
  then show ?case by simp
next
  case (Cons p ps)
  show ?case
  proof (cases "t_successors t p")
    case None
    then show ?thesis by simp
  next
    case (Some ss)
    let ?t1 = "t\<lparr> t_successors := (t_successors t)(p \<mapsto> iset_union ss [m]) \<rparr>"
    have "fst (commit_successors m ps ?t1)
            = ?t1\<lparr> t_successors := t_successors (fst (commit_successors m ps ?t1)) \<rparr>"
      by (rule Cons.IH)
    then show ?thesis using Some by simp
  qed
qed

lemma commit_successors_ok:
  "\<forall>p \<in> set ps. t_successors t p \<noteq> None \<Longrightarrow> snd (commit_successors m ps t) = None"
proof (induction ps arbitrary: t)
  case Nil
  then show ?case by simp
next
  case (Cons p ps)
  then obtain ss where ss: "t_successors t p = Some ss" by auto
  let ?t1 = "t\<lparr> t_successors := (t_successors t)(p \<mapsto> iset_union ss [m]) \<rparr>"
  have "\<forall>q \<in> set ps. t_successors ?t1 q \<noteq> None" using Cons.prems by simp
  then have "snd (commit_successors m ps ?t1) = None" by (rule Cons.IH)
  then show ?case using ss by simp
qed

lemma commit_successors_dom:
  "snd (commit_successors m ps t) = None \<Longrightarrow>
     dom (t_successors (fst (commit_successors m ps t))) = dom (t_successors t)"
proof (induction ps arbitrary: t)
  case Nil
  then show ?case by simp
next
  case (Cons p ps)
  show ?case
  proof (cases "t_successors t p")
    case None
    with Cons.prems show ?thesis by simp
  next
    case (Some ss)
    let ?t1 = "t\<lparr> t_successors := (t_successors t)(p \<mapsto> iset_union ss [m]) \<rparr>"
    from Cons.prems Some have "snd (commit_successors m ps ?t1) = None" by simp
    then have "dom (t_successors (fst (commit_successors m ps ?t1))) = dom (t_successors ?t1)"
      by (rule Cons.IH)
    then show ?thesis using Some by auto
  qed
qed

lemma ackStep_frame:
  "fst (ackStep u am (t, acked)) = t\<lparr> t_unackby := t_unackby (fst (ackStep u am (t, acked))) \<rparr>"
  by (simp add: ackStep_def Let_def)

lemma fold_ackStep_frame:
  "fst (fold (ackStep u) anc (t, acked))
     = t\<lparr> t_unackby := t_unackby (fst (fold (ackStep u) anc (t, acked))) \<rparr>"
proof (induction anc arbitrary: t acked)
  case Nil
  then show ?case by simp
next
  case (Cons a anc)
  obtain t1 acked1 where s: "ackStep u a (t, acked) = (t1, acked1)" by (cases "ackStep u a (t, acked)")
  have t1: "t1 = t\<lparr> t_unackby := t_unackby t1 \<rparr>"
    using ackStep_frame [of u a t acked] s by simp
  have "fst (fold (ackStep u) anc (t1, acked1))
          = t1\<lparr> t_unackby := t_unackby (fst (fold (ackStep u) anc (t1, acked1))) \<rparr>"
    by (rule Cons.IH)
  then have "fst (fold (ackStep u) anc (t1, acked1))
          = t\<lparr> t_unackby := t_unackby (fst (fold (ackStep u) anc (t1, acked1))) \<rparr>"
    by (subst (asm) (2) t1) simp
  then show ?case using s by simp
qed

lemma iset_subtract_idem: "iset_subtract (iset_subtract xs ys) ys = iset_subtract xs ys"
  by (simp add: iset_subtract_def)

lemma ackStep_eq:
  "ackStep u a (t, acked)
     = (t\<lparr> t_unackby := (t_unackby t)(a \<mapsto> unackby_without t u a) \<rparr>,
        if unackby_without t u a = [] then iset_union acked [a] else acked)"
  by (cases "unackby_without t u a")
     (simp_all add: ackStep_def Let_def unackby_without_def iset_size_def)

lemma unackby_without_upd:
  "unackby_without (t\<lparr> t_unackby := (t_unackby t)(a \<mapsto> unackby_without t u a) \<rparr>) u x
     = unackby_without t u x"
  by (simp add: unackby_without_def iset_subtract_idem)

lemma fold_ackStep_unackby:
  "t_unackby (fst (fold (ackStep u) anc (t, acked))) x
     = (if x \<in> set anc then Some (unackby_without t u x) else t_unackby t x)"
proof (induction anc arbitrary: t acked)
  case Nil
  then show ?case by simp
next
  case (Cons a anc)
  let ?t1 = "t\<lparr> t_unackby := (t_unackby t)(a \<mapsto> unackby_without t u a) \<rparr>"
  let ?a1 = "if unackby_without t u a = [] then iset_union acked [a] else acked"
  have "t_unackby (fst (fold (ackStep u) anc (?t1, ?a1))) x
          = (if x \<in> set anc then Some (unackby_without ?t1 u x) else t_unackby ?t1 x)"
    by (rule Cons.IH)
  then show ?case by (simp add: ackStep_eq unackby_without_upd)
qed

lemma fold_ackStep_acked:
  "set (snd (fold (ackStep u) anc (t, acked)))
     = set acked \<union> {a \<in> set anc. unackby_without t u a = []}"
proof (induction anc arbitrary: t acked)
  case Nil
  then show ?case by simp
next
  case (Cons a anc)
  let ?t1 = "t\<lparr> t_unackby := (t_unackby t)(a \<mapsto> unackby_without t u a) \<rparr>"
  let ?a1 = "if unackby_without t u a = [] then iset_union acked [a] else acked"
  have "set (snd (fold (ackStep u) anc (?t1, ?a1)))
          = set ?a1 \<union> {a \<in> set anc. unackby_without ?t1 u a = []}"
    by (rule Cons.IH)
  then show ?case
    by (auto simp: ackStep_eq unackby_without_upd iset_union_def)
qed

lemma fold_ackStep_distinct:
  "distinct acked \<Longrightarrow> distinct (snd (fold (ackStep u) anc (t, acked)))"
proof (induction anc arbitrary: t acked)
  case Nil
  then show ?case by simp
next
  case (Cons a anc)
  let ?t1 = "t\<lparr> t_unackby := (t_unackby t)(a \<mapsto> unackby_without t u a) \<rparr>"
  let ?a1 = "if unackby_without t u a = [] then iset_union acked [a] else acked"
  have "distinct ?a1" using Cons.prems by (simp add: iset_union_def)
  then have "distinct (snd (fold (ackStep u) anc (?t1, ?a1)))" by (rule Cons.IH)
  then show ?case by (simp add: ackStep_eq)
qed

text \<open>The walk over the ancestors.\<close>

lemma fold_visit_Inl:
  assumes "\<And>x e. g x (Inl e) = Inl e"
  shows "fold g xs (Inl e) = Inl e"
  by (induction xs) (simp_all add: assms)

lemma visit_Inl: "visitAncestors n t pred m (Inl e) = Inl e"
  by (cases n) simp_all

lemma fold_visit_sound:
  assumes inl: "\<And>x e. g x (Inl e) = Inl e"
    and step: "\<And>x s s'. g x (Inr s) = Inr s' \<Longrightarrow>
                 set s \<subseteq> set s' \<and> (\<forall>y \<in> set s' - set s. P y) \<and> (distinct s \<longrightarrow> distinct s')"
    and res: "fold g xs (Inr s) = Inr s'"
  shows "set s \<subseteq> set s' \<and> (\<forall>y \<in> set s' - set s. P y) \<and> (distinct s \<longrightarrow> distinct s')"
  using res
proof (induction xs arbitrary: s)
  case Nil
  then show ?case by simp
next
  case (Cons x xs)
  show ?case
  proof (cases "g x (Inr s)")
    case (Inl e)
    with Cons.prems show ?thesis by (simp add: fold_visit_Inl [of g, OF inl])
  next
    case (Inr s1)
    have 1: "set s \<subseteq> set s1 \<and> (\<forall>y \<in> set s1 - set s. P y) \<and> (distinct s \<longrightarrow> distinct s1)"
      using Inr by (rule step)
    have "fold g xs (Inr s1) = Inr s'" using Cons.prems Inr by simp
    then have 2: "set s1 \<subseteq> set s' \<and> (\<forall>y \<in> set s' - set s1. P y) \<and> (distinct s1 \<longrightarrow> distinct s')"
      by (rule Cons.IH)
    from 1 2 show ?thesis by blast
  qed
qed

lemma visit_sound:
  "visitAncestors n t pred m (Inr s) = Inr s' \<Longrightarrow>
     set s \<subseteq> set s' \<and> (\<forall>y \<in> set s' - set s. pred y = Inr True) \<and> (distinct s \<longrightarrow> distinct s')"
proof (induction n arbitrary: m s s')
  case 0
  then show ?case by simp
next
  case (Suc n)
  show ?case
  proof (cases "m \<in> set s")
    case True
    with Suc.prems show ?thesis by simp
  next
    case False
    show ?thesis
    proof (cases "pred m")
      case (Inl e)
      with Suc.prems False show ?thesis by simp
    next
      case (Inr b)
      show ?thesis
      proof (cases b)
        case False
        with Suc.prems Inr \<open>m \<notin> set s\<close> show ?thesis by simp
      next
        case True
        with Suc.prems Inr \<open>m \<notin> set s\<close> obtain ps where
          ps: "bt_pre t m = Inr ps" and
          f: "fold (visitAncestors n t pred) ps (Inr (s @ [m])) = Inr s'"
          by (cases "bt_pre t m") auto
        have "set (s @ [m]) \<subseteq> set s' \<and> (\<forall>y \<in> set s' - set (s @ [m]). pred y = Inr True)
                \<and> (distinct (s @ [m]) \<longrightarrow> distinct s')"
        proof (rule fold_visit_sound [where g = "visitAncestors n t pred"])
          show "\<And>x e. visitAncestors n t pred x (Inl e) = Inl e" by (rule visit_Inl)
          show "\<And>x s s'. visitAncestors n t pred x (Inr s) = Inr s' \<Longrightarrow>
                  set s \<subseteq> set s' \<and> (\<forall>y \<in> set s' - set s. pred y = Inr True)
                  \<and> (distinct s \<longrightarrow> distinct s')"
            by (rule Suc.IH)
          show "fold (visitAncestors n t pred) ps (Inr (s @ [m])) = Inr s'" by (rule f)
        qed
        then show ?thesis using \<open>m \<notin> set s\<close> Inr True by auto
      qed
    qed
  qed
qed

lemma iterAncestors_sound:
  assumes "iterAncestors t init pred = Inr anc"
  shows "distinct anc \<and> (\<forall>y \<in> set anc. pred y = Inr True)"
proof -
  have "set [] \<subseteq> set anc \<and> (\<forall>y \<in> set anc - set []. pred y = Inr True)
          \<and> (distinct ([]::mid list) \<longrightarrow> distinct anc)"
  proof (rule fold_visit_sound [where g = "visitAncestors (Suc (length (t_log t))) t pred"])
    show "\<And>x e. visitAncestors (Suc (length (t_log t))) t pred x (Inl e) = Inl e"
      by (rule visit_Inl)
    show "\<And>x s s'. visitAncestors (Suc (length (t_log t))) t pred x (Inr s) = Inr s' \<Longrightarrow>
            set s \<subseteq> set s' \<and> (\<forall>y \<in> set s' - set s. pred y = Inr True)
            \<and> (distinct s \<longrightarrow> distinct s')"
      by (rule visit_sound)
    show "fold (visitAncestors (Suc (length (t_log t))) t pred) init (Inr []) = Inr anc"
      using assms by (simp add: iterAncestors_def)
  qed
  then show ?thesis by simp
qed

lemma fold_visit_total:
  assumes "\<And>x s. x \<in> set xs \<Longrightarrow> \<exists>s'. g x (Inr s) = Inr s'"
  shows "\<exists>s'. fold g xs (Inr s) = Inr s'"
  using assms
proof (induction xs arbitrary: s)
  case Nil
  then show ?case by simp
next
  case (Cons x xs)
  from Cons.prems [of x s] obtain s1 where s1: "g x (Inr s) = Inr s1" by auto
  have "\<exists>s'. fold g xs (Inr s1) = Inr s'"
    using Cons.prems by (intro Cons.IH) auto
  then show ?case using s1 by simp
qed

lemma visit_total:
  assumes graph: "\<And>x i. t_messageIndex t x = Some i \<Longrightarrow>
            (\<exists>msg. t_messages t x = Some msg
               \<and> (\<forall>p \<in> set (parents msg). \<exists>j. t_messageIndex t p = Some j \<and> j < i))
            \<and> (\<exists>b. pred x = Inr b)"
  shows "t_messageIndex t m = Some i \<Longrightarrow> i < n \<Longrightarrow> \<exists>s'. visitAncestors n t pred m (Inr s) = Inr s'"
proof (induction n arbitrary: m i s)
  case 0
  then show ?case by simp
next
  case (Suc n)
  from graph [OF Suc.prems(1)] obtain msg b where
    msg: "t_messages t m = Some msg" and
    ps: "\<forall>p \<in> set (parents msg). \<exists>j. t_messageIndex t p = Some j \<and> j < i" and
    b: "pred m = Inr b" by auto
  have "\<exists>s'. fold (visitAncestors n t pred) (parents msg) (Inr (s @ [m])) = Inr s'"
  proof (rule fold_visit_total)
    fix x s0 assume "x \<in> set (parents msg)"
    with ps obtain j where j: "t_messageIndex t x = Some j" "j < i" by auto
    with Suc.prems(2) have "j < n" by simp
    with j(1) show "\<exists>s'. visitAncestors n t pred x (Inr s0) = Inr s'" by (rule Suc.IH)
  qed
  moreover have "bt_pre t m = Inr (parents msg)" using msg by (simp add: bt_pre_def safeGet_def)
  ultimately show ?case using b by (cases b) auto
qed

lemma iterAncestors_total:
  assumes graph: "\<And>x i. t_messageIndex t x = Some i \<Longrightarrow>
            (\<exists>msg. t_messages t x = Some msg
               \<and> (\<forall>p \<in> set (parents msg). \<exists>j. t_messageIndex t p = Some j \<and> j < i))
            \<and> (\<exists>b. pred x = Inr b)"
    and init: "\<And>x. x \<in> set init \<Longrightarrow> \<exists>i. t_messageIndex t x = Some i \<and> i \<le> length (t_log t)"
  shows "\<exists>anc. iterAncestors t init pred = Inr anc"
  unfolding iterAncestors_def
proof (rule fold_visit_total)
  fix x s assume "x \<in> set init"
  with init obtain i where i: "t_messageIndex t x = Some i" "i \<le> length (t_log t)" by blast
  then have "i < Suc (length (t_log t))" by simp
  with graph i(1) show "\<exists>s'. visitAncestors (Suc (length (t_log t))) t pred x (Inr s) = Inr s'"
    by (rule visit_total)
qed

lemma commit_sequences_eq:
  assumes "commit_successors m (parents msg) (commit_core t msg m u) = (t2, None)"
  shows "commit_sequences t2 msg m u pumId c
           = (accepted t msg m u pumId c)\<lparr> t_successors := (t_successors t2)(m \<mapsto> []) \<rparr>"
proof -
  have "t2 = (commit_core t msg m u)\<lparr> t_successors := t_successors t2 \<rparr>"
    using commit_successors_frame [of m "parents msg" "commit_core t msg m u"] assms by simp
  then have "commit_sequences t2 msg m u pumId c
      = commit_sequences ((commit_core t msg m u)\<lparr> t_successors := t_successors t2 \<rparr>) msg m u pumId c"
    by simp
  also have "\<dots> = (accepted t msg m u pumId c)\<lparr> t_successors := (t_successors t2)(m \<mapsto> []) \<rparr>"
    by (cases pumId)
       (simp_all add: commit_sequences_def commit_core_def accepted_def earlier_by_def Let_def
          split: option.splits)
  finally show ?thesis .
qed

lemma commit_unacked_walk:
  assumes "commit_unacked t6 msg m u = (t', Inr acked)"
  shows "\<exists>anc. iterAncestors (t6\<lparr> t_unackby := (t_unackby t6)(m \<mapsto> readers msg),
                                    t_unacked := iset_union (t_unacked t6) [m] \<rparr>)
                 (parents msg) (unacked_by ((t_unackby t6)(m \<mapsto> readers msg)) u) = Inr anc"
  using assms by (auto simp: commit_unacked_def Let_def split: sum.splits)

lemma commit_unacked_Inr:
  assumes cu: "commit_unacked t6 msg m u = (t', Inr acked)"
    and anc: "iterAncestors (t6\<lparr> t_unackby := (t_unackby t6)(m \<mapsto> readers msg),
                                   t_unacked := iset_union (t_unacked t6) [m] \<rparr>)
                (parents msg) (unacked_by ((t_unackby t6)(m \<mapsto> readers msg)) u) = Inr anc"
  shows "\<exists>acked1.
           set acked1 = set (if iset_size (readers msg) = 0 then [m] else [])
                 \<union> {a \<in> set anc. iset_subtract (case ((t_unackby t6)(m \<mapsto> readers msg)) a of
                                                     None \<Rightarrow> [] | Some us \<Rightarrow> us) [u] = []}
           \<and> distinct acked1
           \<and> acked = sort_key (\<lambda>x. case t_messageIndex t6 x of None \<Rightarrow> 0 | Some i \<Rightarrow> i) acked1"
    and "t' = t6\<lparr> t_unackby := t_unackby t', t_unacked := t_unacked t',
                    t_cacheUnacked := None,
                    t_cacheBy := (if u = [] then Map.empty else (t_cacheBy t6)(u := None)) \<rparr>"
    and "\<forall>x. t_unackby t' x
              = (if x \<in> set anc
                 then Some (iset_subtract (case ((t_unackby t6)(m \<mapsto> readers msg)) x of
                                             None \<Rightarrow> [] | Some us \<Rightarrow> us) [u])
                 else ((t_unackby t6)(m \<mapsto> readers msg)) x)"
proof -
  let ?t7 = "t6\<lparr> t_unackby := (t_unackby t6)(m \<mapsto> readers msg),
                  t_unacked := iset_union (t_unacked t6) [m] \<rparr>"
  let ?a0 = "if iset_size (readers msg) = 0 then [m] else []"
  obtain t8 acked1 where f: "fold (ackStep u) anc (?t7, ?a0) = (t8, acked1)"
    by (cases "fold (ackStep u) anc (?t7, ?a0)")
  have t8: "t8 = ?t7\<lparr> t_unackby := t_unackby t8 \<rparr>"
    using fold_ackStep_frame [of u anc ?t7 ?a0] f by simp
  have u8: "\<And>x. t_unackby t8 x
              = (if x \<in> set anc then Some (unackby_without ?t7 u x) else t_unackby ?t7 x)"
    using fold_ackStep_unackby [of u anc ?t7 ?a0] f by simp
  have a1: "set acked1 = set ?a0 \<union> {a \<in> set anc. unackby_without ?t7 u a = []}"
    using fold_ackStep_acked [of u anc ?t7 ?a0] f by simp
  have d1: "distinct acked1"
    using fold_ackStep_distinct [of ?a0 u anc ?t7] f by simp
  have res: "t' = invalidateCaches u (t8\<lparr> t_unacked := iset_subtract (t_unacked t8) acked1 \<rparr>)"
    and ack: "acked = sortMIds (t8\<lparr> t_unacked := iset_subtract (t_unacked t8) acked1 \<rparr>) acked1"
    using cu anc f by (simp_all add: commit_unacked_def Let_def)
  have mi: "t_messageIndex t8 = t_messageIndex t6" by (subst t8) simp
  have ut: "t_unackby t' = t_unackby t8" unfolding res by (simp add: invalidateCaches_def)
  show "t' = t6\<lparr> t_unackby := t_unackby t', t_unacked := t_unacked t',
                       t_cacheUnacked := None,
                       t_cacheBy := (if u = [] then Map.empty else (t_cacheBy t6)(u := None)) \<rparr>"
    unfolding res by (subst (1 2 3 4) t8) (simp add: invalidateCaches_def)
  show "\<forall>x. t_unackby t' x
              = (if x \<in> set anc
                 then Some (iset_subtract (case ((t_unackby t6)(m \<mapsto> readers msg)) x of
                                             None \<Rightarrow> [] | Some us \<Rightarrow> us) [u])
                 else ((t_unackby t6)(m \<mapsto> readers msg)) x)"
    using u8 by (simp add: ut unackby_without_def)
  have "set acked1 = set ?a0
                 \<union> {a \<in> set anc. iset_subtract (case ((t_unackby t6)(m \<mapsto> readers msg)) a of
                                                     None \<Rightarrow> [] | Some us \<Rightarrow> us) [u] = []}"
    using a1 by (simp add: unackby_without_def)
  moreover have "acked = sort_key (\<lambda>x. case t_messageIndex t6 x of None \<Rightarrow> 0 | Some i \<Rightarrow> i) acked1"
    using ack by (simp add: sortMIds_def mi)
  ultimately show "\<exists>acked1.
           set acked1 = set (if iset_size (readers msg) = 0 then [m] else [])
                 \<union> {a \<in> set anc. iset_subtract (case ((t_unackby t6)(m \<mapsto> readers msg)) a of
                                                     None \<Rightarrow> [] | Some us \<Rightarrow> us) [u] = []}
           \<and> distinct acked1
           \<and> acked = sort_key (\<lambda>x. case t_messageIndex t6 x of None \<Rightarrow> 0 | Some i \<Rightarrow> i) acked1"
    using d1 by blast
qed

section \<open>The invariants are kept\<close>

lemma idx_le_Some [simp]: "idx_le (Some i) (Some j) = (i \<le> j)"
  by (simp add: idx_le_def)

lemma idx_gt_Some [simp]: "idx_gt (Some i) (Some j) = (i > j)"
  by (simp add: idx_gt_def)

lemma idx_le_D: "idx_le a b \<Longrightarrow> \<exists>i j. a = Some i \<and> b = Some j \<and> i \<le> j"
  by (cases a; cases b) (simp_all add: idx_le_def)

lemma idx_gt_D: "idx_gt a b \<Longrightarrow> \<exists>i j. a = Some i \<and> b = Some j \<and> i > j"
  by (cases a; cases b) (simp_all add: idx_gt_def)

lemma inv_log_index:
  assumes "inv_log t" "x \<in> set (t_log t)"
  shows "\<exists>i. t_messageIndex t x = Some i \<and> i < length (t_log t) \<and> t_log t ! i = x"
proof -
  from assms(2) obtain i where "i < length (t_log t)" "t_log t ! i = x"
    by (auto simp: in_set_conv_nth)
  with assms(1) show ?thesis by (auto simp: inv_log_def)
qed

lemma inv_log_index_D:
  assumes "inv_log t" "t_messageIndex t x = Some i"
  shows "i < length (t_log t) \<and> t_log t ! i = x \<and> x \<in> set (t_log t)"
  using assms by (auto simp: inv_log_def)

lemma inv_log_recorded:
  assumes "inv_log t"
  shows "(t_messages t x \<noteq> None) = (x \<in> set (t_log t))"
  using assms by (auto simp: inv_log_def dom_def)

text \<open>What the checks give, on a well-formed transcript.\<close>

lemma earlier_by_wf:
  assumes "inv_authors t"
  shows "earlier_by t u (pumId_of t (Some u))
           = (case t_authorMessages t u of None \<Rightarrow> [] | Some ms \<Rightarrow> ms)"
proof (cases "t_authorMessages t u")
  case None
  then show ?thesis by (simp add: earlier_by_def pumId_of_def)
next
  case (Some ms)
  with assms have "ms \<noteq> []" by (auto simp: inv_authors_def)
  with Some show ?thesis by (simp add: earlier_by_def pumId_of_def)
qed

lemma accepted_inv_log:
  assumes "inv_log t" "t_messages t m = None"
  shows "inv_log (accepted t msg m u pumId c)"
proof -
  have nm: "m \<notin> set (t_log t)" using assms inv_log_recorded by blast
  have len: "t_length t = length (t_log t)" using assms(1) by (simp add: inv_log_def)
  have idx: "\<And>x i. (t_messageIndex t x = Some i) = (i < length (t_log t) \<and> t_log t ! i = x)"
    using assms(1) by (simp add: inv_log_def)
  have "\<And>x i. (((t_messageIndex t)(m \<mapsto> t_length t)) x = Some i)
           = (i < length (t_log t @ [m]) \<and> (t_log t @ [m]) ! i = x)"
  proof -
    fix x i
    show "(((t_messageIndex t)(m \<mapsto> t_length t)) x = Some i)
           = (i < length (t_log t @ [m]) \<and> (t_log t @ [m]) ! i = x)"
    proof (cases "i < length (t_log t)")
      case True
      then have "t_log t ! i \<noteq> m" using nm by (metis nth_mem)
      with True show ?thesis using idx [of x i] len by (auto simp: nth_append)
    next
      case False
      then show ?thesis using idx [of x i] len by (auto simp: nth_append)
    qed
  qed
  moreover have "dom ((t_messages t)(m \<mapsto> msg)) = set (t_log t @ [m])"
    using assms(1) by (auto simp: inv_log_def)
  ultimately show ?thesis
    using assms(1) nm unfolding inv_log_def accepted_def by simp
qed

lemma accepted_inv_msgs:
  assumes l: "inv_log t" and i: "inv_msgs t" and n: "t_messages t m = None"
    and id: "mId msg = Some m" and au: "author msg = Some u"
    and ps: "\<forall>p \<in> set (parents msg). t_messages t p \<noteq> None"
  shows "inv_msgs (accepted t msg m u pumId c)"
proof -
  have nm: "m \<notin> set (t_log t)" using l n inv_log_recorded by blast
  have len: "t_length t = length (t_log t)" using l by (simp add: inv_log_def)
  have nidx: "t_messageIndex t m = None"
  proof (cases "t_messageIndex t m")
    case (Some i)
    with l nm show ?thesis using inv_log_index_D by blast
  qed simp
  have new: "\<forall>p \<in> set (parents msg).
               idx_gt (((t_messageIndex t)(m \<mapsto> t_length t)) m) (((t_messageIndex t)(m \<mapsto> t_length t)) p)"
  proof
    fix p assume p: "p \<in> set (parents msg)"
    with ps have "p \<in> set (t_log t)" using l inv_log_recorded by blast
    then obtain j where j: "t_messageIndex t p = Some j" "j < length (t_log t)"
      using l inv_log_index by blast
    then have "p \<noteq> m" using nidx by auto
    then show "idx_gt (((t_messageIndex t)(m \<mapsto> t_length t)) m) (((t_messageIndex t)(m \<mapsto> t_length t)) p)"
      using j len by simp
  qed
  have old: "\<And>x xm p. x \<noteq> m \<Longrightarrow> t_messages t x = Some xm \<Longrightarrow> p \<in> set (parents xm) \<Longrightarrow>
               idx_gt (((t_messageIndex t)(m \<mapsto> t_length t)) x) (((t_messageIndex t)(m \<mapsto> t_length t)) p)"
  proof -
    fix x xm p assume x: "x \<noteq> m" "t_messages t x = Some xm" "p \<in> set (parents xm)"
    with i have g: "idx_gt (t_messageIndex t x) (t_messageIndex t p)" by (auto simp: inv_msgs_def)
    then have "p \<noteq> m" using nidx by (auto dest: idx_gt_D)
    with x(1) g show "idx_gt (((t_messageIndex t)(m \<mapsto> t_length t)) x) (((t_messageIndex t)(m \<mapsto> t_length t)) p)"
      by simp
  qed
  show ?thesis
    unfolding inv_msgs_def accepted_def
    using i id au new old by (auto simp: inv_msgs_def)
qed

lemma accepted_inv_authors:
  assumes l: "inv_log t" and a: "inv_authors t" and n: "t_messages t m = None"
    and au: "author msg = Some u" and pum: "pumId = pumId_of t (Some u)"
  shows "inv_authors (accepted t msg m u pumId c)"
proof -
  let ?old = "case t_authorMessages t u of None \<Rightarrow> [] | Some ms \<Rightarrow> ms"
  have e: "earlier_by t u pumId = ?old" using a pum by (simp add: earlier_by_wf)
  have a1: "\<And>v ms i. t_authorMessages t v = Some ms \<Longrightarrow> i < length ms \<Longrightarrow>
              t_authorIndex t (ms ! i) = Some i
              \<and> (\<exists>xm. t_messages t (ms ! i) = Some xm \<and> author xm = Some v)"
    using a by (auto simp: inv_authors_def)
  have a2: "\<And>x xm v. t_messages t x = Some xm \<Longrightarrow> author xm = Some v \<Longrightarrow>
              \<exists>ms i. t_authorMessages t v = Some ms \<and> t_authorIndex t x = Some i
                      \<and> i < length ms \<and> ms ! i = x"
    using a unfolding inv_authors_def by blast
  have oldm: "\<And>i. i < length ?old \<Longrightarrow> ?old ! i \<noteq> m \<and> t_authorIndex t (?old ! i) = Some i
                \<and> (\<exists>xm. t_messages t (?old ! i) = Some xm \<and> author xm = Some u)"
  proof -
    fix i assume i: "i < length ?old"
    then obtain ms where ms: "t_authorMessages t u = Some ms" "?old = ms"
      by (cases "t_authorMessages t u") auto
    with a1 [of u ms i] i n show "?old ! i \<noteq> m \<and> t_authorIndex t (?old ! i) = Some i
                \<and> (\<exists>xm. t_messages t (?old ! i) = Some xm \<and> author xm = Some u)"
      by auto
  qed
  have p1: "\<And>v ms i. ((t_authorMessages t)(u \<mapsto> ?old @ [m])) v = Some ms \<Longrightarrow> i < length ms \<Longrightarrow>
              ms \<noteq> [] \<and> ((t_authorIndex t)(m \<mapsto> length ?old)) (ms ! i) = Some i
              \<and> (\<exists>xm. ((t_messages t)(m \<mapsto> msg)) (ms ! i) = Some xm \<and> author xm = Some v)"
  proof -
    fix v ms i
    assume h: "((t_authorMessages t)(u \<mapsto> ?old @ [m])) v = Some ms" "i < length ms"
    show "ms \<noteq> [] \<and> ((t_authorIndex t)(m \<mapsto> length ?old)) (ms ! i) = Some i
              \<and> (\<exists>xm. ((t_messages t)(m \<mapsto> msg)) (ms ! i) = Some xm \<and> author xm = Some v)"
    proof (cases "v = u")
      case True
      with h have ms: "ms = ?old @ [m]" by simp
      show ?thesis
      proof (cases "i < length ?old")
        case True
        with oldm [of i] ms show ?thesis using \<open>v = u\<close> by (auto simp: nth_append)
      next
        case False
        with h(2) ms have "i = length ?old" by simp
        with ms au \<open>v = u\<close> show ?thesis by simp
      qed
    next
      case False
      with h have ms: "t_authorMessages t v = Some ms" by simp
      from a1 [OF ms h(2)] n have "ms ! i \<noteq> m" by auto
      with a1 [OF ms h(2)] h(2) show ?thesis by auto
    qed
  qed
  have p1': "\<And>v ms. ((t_authorMessages t)(u \<mapsto> ?old @ [m])) v = Some ms \<Longrightarrow> ms \<noteq> []"
  proof -
    fix v ms assume h: "((t_authorMessages t)(u \<mapsto> ?old @ [m])) v = Some ms"
    show "ms \<noteq> []"
    proof (cases "v = u")
      case True
      with h show ?thesis by auto
    next
      case False
      with h a show ?thesis by (auto simp: inv_authors_def)
    qed
  qed
  have p2: "\<And>x xm v. ((t_messages t)(m \<mapsto> msg)) x = Some xm \<Longrightarrow> author xm = Some v \<Longrightarrow>
              \<exists>ms i. ((t_authorMessages t)(u \<mapsto> ?old @ [m])) v = Some ms
                      \<and> ((t_authorIndex t)(m \<mapsto> length ?old)) x = Some i
                      \<and> i < length ms \<and> ms ! i = x"
  proof -
    fix x xm v
    assume h: "((t_messages t)(m \<mapsto> msg)) x = Some xm" "author xm = Some v"
    show "\<exists>ms i. ((t_authorMessages t)(u \<mapsto> ?old @ [m])) v = Some ms
                      \<and> ((t_authorIndex t)(m \<mapsto> length ?old)) x = Some i
                      \<and> i < length ms \<and> ms ! i = x"
    proof (cases "x = m")
      case True
      with h au have "v = u" by simp
      with True show ?thesis by simp
    next
      case False
      with h have "t_messages t x = Some xm" by simp
      from a2 [OF this h(2)] obtain ms i where
        ms: "t_authorMessages t v = Some ms" "t_authorIndex t x = Some i" "i < length ms" "ms ! i = x"
        by blast
      show ?thesis
      proof (cases "v = u")
        case True
        with ms False show ?thesis by (auto simp: nth_append)
      next
        case False
        with ms \<open>x \<noteq> m\<close> show ?thesis by auto
      qed
    qed
  qed
  show ?thesis
    unfolding inv_authors_def accepted_def e
    using p1 p1' p2 by simp
qed

lemma accepted_inv_order:
  assumes l: "inv_log t" and a: "inv_authors t" and o: "inv_order t" and n: "t_messages t m = None"
    and au: "author msg = Some u" and pum: "pumId = pumId_of t (Some u)"
  shows "inv_order (accepted t msg m u pumId c)"
proof -
  let ?old = "case t_authorMessages t u of None \<Rightarrow> [] | Some ms \<Rightarrow> ms"
  let ?mi = "(t_messageIndex t)(m \<mapsto> t_length t)"
  let ?ai = "(t_authorIndex t)(m \<mapsto> length ?old)"
  have e: "earlier_by t u pumId = ?old" using a pum by (simp add: earlier_by_wf)
  have len: "t_length t = length (t_log t)" using l by (simp add: inv_log_def)
  have recidx: "\<And>x xm. t_messages t x = Some xm \<Longrightarrow>
                  \<exists>k. t_messageIndex t x = Some k \<and> k < length (t_log t)"
  proof -
    fix x xm assume "t_messages t x = Some xm"
    then have "x \<in> set (t_log t)" using l inv_log_recorded by blast
    then show "\<exists>k. t_messageIndex t x = Some k \<and> k < length (t_log t)"
      using l inv_log_index by blast
  qed
  have below: "\<And>x xm j. t_messages t x = Some xm \<Longrightarrow> author xm = Some u \<Longrightarrow>
                 t_authorIndex t x = Some j \<Longrightarrow> j < length ?old"
  proof -
    fix x xm j
    assume h: "t_messages t x = Some xm" "author xm = Some u" "t_authorIndex t x = Some j"
    with a obtain ms i where "t_authorMessages t u = Some ms" "t_authorIndex t x = Some i" "i < length ms"
      unfolding inv_authors_def by blast
    with h(3) show "j < length ?old" by simp
  qed
  have "\<And>x y xm ym i j. ((t_messages t)(m \<mapsto> msg)) x = Some xm \<Longrightarrow>
          ((t_messages t)(m \<mapsto> msg)) y = Some ym \<Longrightarrow> author xm = author ym \<Longrightarrow>
          ?ai x = Some i \<Longrightarrow> ?ai y = Some j \<Longrightarrow> i \<le> j \<Longrightarrow> idx_le (?mi x) (?mi y)"
  proof -
    fix x y xm ym i j
    assume h: "((t_messages t)(m \<mapsto> msg)) x = Some xm" "((t_messages t)(m \<mapsto> msg)) y = Some ym"
      "author xm = author ym" "?ai x = Some i" "?ai y = Some j" "i \<le> j"
    show "idx_le (?mi x) (?mi y)"
    proof (cases "y = m")
      case True
      show ?thesis
      proof (cases "x = m")
        case True
        with \<open>y = m\<close> show ?thesis by simp
      next
        case False
        with h(1) obtain k where "t_messageIndex t x = Some k" "k < length (t_log t)"
          using recidx by auto
        with False True len show ?thesis by simp
      qed
    next
      case False
      note ym = False
      show ?thesis
      proof (cases "x = m")
        case True
        with h ym au have "t_messages t y = Some ym" "author ym = Some u" "t_authorIndex t y = Some j"
          "i = length ?old"
          by auto
        with below [of y ym j] h(6) show ?thesis by simp
      next
        case False
        with ym h have "t_messages t x = Some xm" "t_messages t y = Some ym"
          "t_authorIndex t x = Some i" "t_authorIndex t y = Some j" by auto
        with o h(3,6) have "idx_le (t_messageIndex t x) (t_messageIndex t y)"
          unfolding inv_order_def by blast
        with False ym show ?thesis by simp
      qed
    qed
  qed
  then show ?thesis
    unfolding inv_order_def accepted_def e by simp
qed

text \<open>The entries of a merged context come from the contexts of the parents and from the
  parents themselves.\<close>

lemma set_AList_update: "set (AList.update k v c) \<subseteq> insert (k, v) (set c)"
  by (induction c) (auto simp: )

lemma mergeEntry_entries:
  assumes "mergeEntry t e c = Inr c'" "\<forall>(k, v) \<in> set c. Q k v" "Q (fst e) (snd e)"
  shows "\<forall>(k, v) \<in> set c'. Q k v"
proof -
  obtain k v where e: "e = (k, v)" by (cases e)
  from assms(1) have "c' = c \<or> c' = AList.update k v c"
    by (auto simp: mergeEntry_def e split: option.splits sum.splits bool.splits)
  then show ?thesis
    using assms(2,3) set_AList_update [of k v c] e by auto
qed

lemma foldE_entries:
  assumes "foldE f xs c = Inr c'" "R c"
    and "\<And>x a a'. x \<in> set xs \<Longrightarrow> R a \<Longrightarrow> f x a = Inr a' \<Longrightarrow> R a'"
  shows "R c'"
  using assms
proof (induction xs arbitrary: c)
  case Nil
  then show ?case by simp
next
  case (Cons x xs)
  from Cons.prems(1) obtain c1 where c1: "f x c = Inr c1" "foldE f xs c1 = Inr c'"
    by (cases "f x c") auto
  have "R c1" using Cons.prems(2,3) c1(1) by auto
  with c1(2) show ?case using Cons.prems(3) by (intro Cons.IH [of c1]) auto
qed

lemma mergeContext_entries:
  assumes mc: "mergeContext t pmId ruId = Inr c"
    and stored: "\<And>p cp k q. p \<in> set pmId \<Longrightarrow> t_context t p = Some cp \<Longrightarrow> (k, Some q) \<in> set cp \<Longrightarrow> E k q"
    and par: "\<And>p pm. p \<in> set pmId \<Longrightarrow> t_messages t p = Some pm \<Longrightarrow> E (author pm) p"
  shows "\<forall>k q. (k, Some q) \<in> set c \<longrightarrow> E k q"
proof -
  let ?Q = "\<lambda>k v. case v of None \<Rightarrow> True | Some q \<Rightarrow> E k q"
  let ?R = "\<lambda>c. \<forall>(k, v) \<in> set c. ?Q k v"
  from mc obtain c1 c2 where
    c1: "foldE (mergeParent t) pmId [] = Inr c1" and
    c2: "foldE (setParentAuthor t) pmId c1 = Inr c2" and
    c: "c = filter (\<lambda>(pu, _). case pu of None \<Rightarrow> False | Some u \<Rightarrow> iset_has ruId u)
              (fold setMissingReader ruId c2)"
    by (auto simp: mergeContext_def Let_def split: sum.splits)
  have r1: "?R c1"
  proof (rule foldE_entries [where R = "?R", OF c1])
    show "?R []" by simp
    fix p a a' assume p: "p \<in> set pmId" and a: "?R a" and s: "mergeParent t p a = Inr a'"
    from s obtain cp where cp: "t_context t p = Some cp" "foldE (mergeEntry t) cp a = Inr a'"
      by (auto simp: mergeParent_def split: option.splits)
    show "?R a'"
    proof (rule foldE_entries [where R = "?R", OF cp(2) a])
      fix e b b' assume e: "e \<in> set cp" and b: "?R b" and m: "mergeEntry t e b = Inr b'"
      have "?Q (fst e) (snd e)"
        using stored [OF p cp(1), of "fst e"] e by (cases e) (auto split: option.splits)
      with m b show "?R b'" by (rule mergeEntry_entries)
    qed
  qed
  have r2: "?R c2"
  proof (rule foldE_entries [where R = "?R", OF c2 r1])
    fix p a a' assume p: "p \<in> set pmId" and a: "?R a" and s: "setParentAuthor t p a = Inr a'"
    from s obtain pm where pm: "t_messages t p = Some pm" "a' = AList.update (author pm) (Some p) a"
      by (auto simp: setParentAuthor_def bt_author_def safeGet_def split: option.splits)
    have "E (author pm) p" using par p pm(1) by blast
    then show "?R a'" using a set_AList_update [of "author pm" "Some p" a] pm(2) by auto
  qed
  have r3: "?R (fold setMissingReader ruId c2)"
    using r2
  proof (induction ruId arbitrary: c2)
    case Nil
    then show ?case by simp
  next
    case (Cons r rs)
    have "?R (setMissingReader r c2)"
      using Cons.prems set_AList_update [of "Some r" None c2]
      by (auto simp: setMissingReader_def)
    then show ?case by (simp add: Cons.IH)
  qed
  then show ?thesis unfolding c by auto
qed

lemma accepted_inv_context:
  assumes l: "inv_log t" and i: "inv_msgs t" and cx: "inv_context t" and n: "t_messages t m = None"
    and ps: "\<forall>p \<in> set (parents msg). t_messages t p \<noteq> None"
    and mc: "mergeContext t (parents msg) (readers msg) = Inr c"
  shows "inv_context (accepted t msg m u pumId c)"
proof -
  let ?mi = "(t_messageIndex t)(m \<mapsto> t_length t)"
  let ?ms = "(t_messages t)(m \<mapsto> msg)"
  let ?E = "\<lambda>k q. \<exists>qm i. t_messages t q = Some qm \<and> author qm = k \<and> t_messageIndex t q = Some i"
  have len: "t_length t = length (t_log t)" using l by (simp add: inv_log_def)
  have recidx: "\<And>x xm. t_messages t x = Some xm \<Longrightarrow>
                  \<exists>k. t_messageIndex t x = Some k \<and> k < length (t_log t)"
  proof -
    fix x xm assume "t_messages t x = Some xm"
    then have "x \<in> set (t_log t)" using l inv_log_recorded by blast
    then show "\<exists>k. t_messageIndex t x = Some k \<and> k < length (t_log t)"
      using l inv_log_index by blast
  qed
  have nidx: "t_messageIndex t m = None"
  proof (cases "t_messageIndex t m")
    case (Some i)
    then have "m \<in> set (t_log t)" using l inv_log_index_D by blast
    with l n show ?thesis using inv_log_recorded by blast
  qed simp
  have ent: "\<forall>k q. (k, Some q) \<in> set c \<longrightarrow> ?E k q"
  proof (rule mergeContext_entries [OF mc])
    fix p cp k q
    assume "p \<in> set (parents msg)" "t_context t p = Some cp" "(k, Some q) \<in> set cp"
    with cx show "?E k q" unfolding inv_context_def ctx_entry_ok_def by blast
  next
    fix p pm assume "p \<in> set (parents msg)" "t_messages t p = Some pm"
    then show "?E (author pm) p" using recidx by blast
  qed
  have new: "\<And>k q. (k, Some q) \<in> set c \<Longrightarrow> ctx_entry_ok (accepted t msg m u pumId c) (t_length t) k q"
  proof -
    fix k q assume "(k, Some q) \<in> set c"
    with ent obtain qm i where q: "t_messages t q = Some qm" "author qm = k" "t_messageIndex t q = Some i"
      by blast
    then have "q \<noteq> m" using n by auto
    moreover from q(1,3) recidx have "i < length (t_log t)" by fastforce
    ultimately show "ctx_entry_ok (accepted t msg m u pumId c) (t_length t) k q"
      using q len by (simp add: ctx_entry_ok_def accepted_def)
  qed
  have old: "\<And>x cx0 k q. x \<noteq> m \<Longrightarrow> t_context t x = Some cx0 \<Longrightarrow> (k, Some q) \<in> set cx0 \<Longrightarrow>
               \<exists>j. ?mi x = Some j \<and> ctx_entry_ok (accepted t msg m u pumId c) j k q"
  proof -
    fix x cx0 k q assume h: "x \<noteq> m" "t_context t x = Some cx0" "(k, Some q) \<in> set cx0"
    with cx obtain j where j: "t_messageIndex t x = Some j" "ctx_entry_ok t j k q"
      unfolding inv_context_def by blast
    from j(2) obtain qm i where q: "t_messages t q = Some qm" "author qm = k"
      "t_messageIndex t q = Some i" "i < j"
      by (auto simp: ctx_entry_ok_def)
    then have "q \<noteq> m" using n by auto
    with q have "ctx_entry_ok (accepted t msg m u pumId c) j k q"
      by (simp add: ctx_entry_ok_def accepted_def)
    with j(1) h(1) show "\<exists>j. ?mi x = Some j \<and> ctx_entry_ok (accepted t msg m u pumId c) j k q"
      by simp
  qed
  show ?thesis
    unfolding inv_context_def
  proof (intro allI impI)
    fix x cx0 k q
    assume h: "t_context (accepted t msg m u pumId c) x = Some cx0 \<and> (k, Some q) \<in> set cx0"
    show "\<exists>j. t_messageIndex (accepted t msg m u pumId c) x = Some j
               \<and> ctx_entry_ok (accepted t msg m u pumId c) j k q"
    proof (cases "x = m")
      case True
      with h have "cx0 = c" by (simp add: accepted_def)
      with h new [of k q] True show ?thesis by (simp add: accepted_def)
    next
      case False
      with h have "t_context t x = Some cx0" by (simp add: accepted_def)
      from old [OF False this] h show ?thesis by (simp add: accepted_def)
    qed
  qed
qed

text \<open>The invariants do not read the successors, the unacked readers or the caches,
  except for the two that are about them.\<close>

lemma inv_other_fields:
  "inv_log (t\<lparr> t_successors := S, t_unackby := U, t_unacked := K, t_cacheUnacked := cu, t_cacheBy := cb \<rparr>)
     = inv_log t"
  "inv_msgs (t\<lparr> t_successors := S, t_unackby := U, t_unacked := K, t_cacheUnacked := cu, t_cacheBy := cb \<rparr>)
     = inv_msgs t"
  "inv_authors (t\<lparr> t_successors := S, t_unackby := U, t_unacked := K, t_cacheUnacked := cu, t_cacheBy := cb \<rparr>)
     = inv_authors t"
  "inv_order (t\<lparr> t_successors := S, t_unackby := U, t_unacked := K, t_cacheUnacked := cu, t_cacheBy := cb \<rparr>)
     = inv_order t"
  "inv_context (t\<lparr> t_successors := S, t_unackby := U, t_unacked := K, t_cacheUnacked := cu, t_cacheBy := cb \<rparr>)
     = inv_context t"
  by (simp_all add: inv_log_def inv_msgs_def inv_authors_def inv_order_def inv_context_def
        ctx_entry_ok_def)

lemma commit_unacked_ok:
  assumes "iterAncestors (t6\<lparr> t_unackby := (t_unackby t6)(m \<mapsto> readers msg),
                              t_unacked := iset_union (t_unacked t6) [m] \<rparr>)
             (parents msg) (unacked_by ((t_unackby t6)(m \<mapsto> readers msg)) u) = Inr anc"
  shows "\<exists>t' acked. commit_unacked t6 msg m u = (t', Inr acked)"
proof -
  let ?t7 = "t6\<lparr> t_unackby := (t_unackby t6)(m \<mapsto> readers msg),
                  t_unacked := iset_union (t_unacked t6) [m] \<rparr>"
  obtain t8 acked1 where
    "fold (ackStep u) anc (?t7, if iset_size (readers msg) = 0 then [m] else []) = (t8, acked1)"
    by (cases "fold (ackStep u) anc (?t7, if iset_size (readers msg) = 0 then [m] else [])")
  with assms show ?thesis by (simp add: commit_unacked_def Let_def)
qed

lemma bt_add_accepts:
  assumes w: "wf_transcript t" and ok: "add_checks merge t msg = Inr (m, u, pumId, c)"
  shows "\<exists>acked. snd (bt_add merge t msg) = Inr acked"
    and "fst (bt_add merge t msg)
           = (accepted t msg m u pumId c)
               \<lparr> t_successors := t_successors (fst (bt_add merge t msg)),
                 t_unackby := t_unackby (fst (bt_add merge t msg)),
                 t_unacked := t_unacked (fst (bt_add merge t msg)),
                 t_cacheUnacked := None,
                 t_cacheBy := (if u = [] then Map.empty else (t_cacheBy t)(u := None)) \<rparr>"
    and "dom (t_successors (fst (bt_add merge t msg))) = insert m (dom (t_successors t))"
    and "dom (t_unackby (fst (bt_add merge t msg))) = insert m (dom (t_unackby t))"
proof -
  note d = add_checks_InrD [OF ok]
  let ?A = "accepted t msg m u pumId c"
  from w have l: "inv_log t" and im: "inv_msgs t" and tb: "inv_tables t" and nf: "\<not> t_fubar t"
    by (simp_all add: wf_transcript_def)
  have len: "t_length t = length (t_log t)" using l by (simp add: inv_log_def)
  have plog: "\<And>p. p \<in> set (parents msg) \<Longrightarrow> p \<in> set (t_log t)"
    using d(6) l inv_log_recorded by blast
  have nm: "m \<notin> set (t_log t)" using d(4) l inv_log_recorded by blast
  have nidx: "t_messageIndex t m = None"
  proof (cases "t_messageIndex t m")
    case (Some i)
    with l nm show ?thesis using inv_log_index_D by blast
  qed simp
  \<comment> \<open>the successors\<close>
  have "\<forall>p \<in> set (parents msg). t_successors (commit_core t msg m u) p \<noteq> None"
    using plog tb by (auto simp: inv_tables_def commit_core_def)
  then have s0: "snd (commit_successors m (parents msg) (commit_core t msg m u)) = None"
    by (rule commit_successors_ok)
  then obtain t2 where t2: "commit_successors m (parents msg) (commit_core t msg m u) = (t2, None)"
    by (cases "commit_successors m (parents msg) (commit_core t msg m u)") auto
  have ds: "dom (t_successors t2) = dom (t_successors t)"
    using commit_successors_dom [OF s0] t2 by (simp add: commit_core_def)
  let ?S = "(t_successors t2)(m \<mapsto> [])"
  let ?t6 = "?A\<lparr> t_successors := ?S \<rparr>"
  have t6: "commit_sequences t2 msg m u pumId c = ?t6"
    using t2 by (rule commit_sequences_eq)
  \<comment> \<open>the walk\<close>
  let ?U7 = "(t_unackby t)(m \<mapsto> readers msg)"
  let ?t7 = "?t6\<lparr> t_unackby := (t_unackby ?t6)(m \<mapsto> readers msg),
                  t_unacked := iset_union (t_unacked ?t6) [m] \<rparr>"
  have u6: "t_unackby ?t6 = t_unackby t" by (simp add: accepted_def)
  have "\<exists>anc. iterAncestors ?t7 (parents msg) (unacked_by ?U7 u) = Inr anc"
  proof (rule iterAncestors_total)
    fix x i assume xi: "t_messageIndex ?t7 x = Some i"
    show "(\<exists>xm. t_messages ?t7 x = Some xm
             \<and> (\<forall>p \<in> set (parents xm). \<exists>j. t_messageIndex ?t7 p = Some j \<and> j < i))
          \<and> (\<exists>b. unacked_by ?U7 u x = Inr b)"
    proof (cases "x = m")
      case True
      with xi have i: "i = length (t_log t)" using len by (simp add: accepted_def)
      have "\<forall>p \<in> set (parents msg). \<exists>j. t_messageIndex ?t7 p = Some j \<and> j < i"
      proof
        fix p assume "p \<in> set (parents msg)"
        then have "p \<in> set (t_log t)" by (rule plog)
        then obtain j where "t_messageIndex t p = Some j" "j < length (t_log t)"
          using l inv_log_index by blast
        moreover then have "p \<noteq> m" using nidx by auto
        ultimately show "\<exists>j. t_messageIndex ?t7 p = Some j \<and> j < i"
          using i by (simp add: accepted_def)
      qed
      with True show ?thesis by (simp add: accepted_def unacked_by_def)
    next
      case False
      with xi have xi': "t_messageIndex t x = Some i" by (simp add: accepted_def)
      then have xl: "x \<in> set (t_log t)" using l inv_log_index_D by blast
      then obtain xm where xm: "t_messages t x = Some xm"
        using l inv_log_recorded [of t x] by auto
      have "\<forall>p \<in> set (parents xm). \<exists>j. t_messageIndex ?t7 p = Some j \<and> j < i"
      proof
        fix p assume "p \<in> set (parents xm)"
        with im xm have "idx_gt (t_messageIndex t x) (t_messageIndex t p)"
          by (auto simp: inv_msgs_def)
        with xi' obtain j where j: "t_messageIndex t p = Some j" "j < i"
          by (auto dest: idx_gt_D)
        then have "p \<noteq> m" using nidx by auto
        with j show "\<exists>j. t_messageIndex ?t7 p = Some j \<and> j < i" by (simp add: accepted_def)
      qed
      moreover have "\<exists>us. t_unackby t x = Some us" using tb xl by (auto simp: inv_tables_def)
      ultimately show ?thesis using False xm by (auto simp: accepted_def unacked_by_def)
    qed
  next
    fix x assume "x \<in> set (parents msg)"
    then have xl: "x \<in> set (t_log t)" by (rule plog)
    then obtain j where j: "t_messageIndex t x = Some j" "j < length (t_log t)"
      using l inv_log_index by blast
    then have "x \<noteq> m" using nidx by auto
    with j show "\<exists>i. t_messageIndex ?t7 x = Some i \<and> i \<le> length (t_log ?t7)"
      by (auto simp: accepted_def)
  qed
  then obtain anc where
    anc: "iterAncestors ?t7 (parents msg) (unacked_by ((t_unackby ?t6)(m \<mapsto> readers msg)) u) = Inr anc"
    by (auto simp: u6)
  from commit_unacked_ok [OF this]
  obtain t' acked where cu: "commit_unacked ?t6 msg m u = (t', Inr acked)"
    by blast
  note shape = commit_unacked_Inr(2) [OF cu anc]
  note ut = commit_unacked_Inr(3) [OF cu anc]
  have ancdom: "\<And>y. y \<in> set anc \<Longrightarrow> ?U7 y \<noteq> None"
  proof -
    fix y assume "y \<in> set anc"
    with iterAncestors_sound [OF anc] have "unacked_by ?U7 u y = Inr True" by (simp add: u6)
    then show "?U7 y \<noteq> None" by (auto simp: unacked_by_def split: option.splits)
  qed
  have du: "dom (t_unackby t') = insert m (dom (t_unackby t))"
  proof (rule set_eqI)
    fix y
    show "(y \<in> dom (t_unackby t')) = (y \<in> insert m (dom (t_unackby t)))"
      using ut [rule_format, of y] ancdom [of y]
      by (cases "y \<in> set anc") (auto simp: u6 dom_def split: if_splits)
  qed
  have "commit t msg m u pumId c = (t', Inr acked)"
    using t2 t6 cu by (simp add: commit_def)
  then have r: "bt_add merge t msg = (t', Inr acked)"
    using nf ok by (simp add: bt_add_def)
  have cb: "t_cacheBy ?t6 = t_cacheBy t" by (simp add: accepted_def)
  have shape': "t' = ?A\<lparr> t_successors := ?S, t_unackby := t_unackby t', t_unacked := t_unacked t',
                          t_cacheUnacked := None,
                          t_cacheBy := (if u = [] then Map.empty else (t_cacheBy t)(u := None)) \<rparr>"
    using shape unfolding cb .
  have ds': "dom ?S = insert m (dom (t_successors t))" using ds by auto
  have st: "t_successors t' = ?S" by (subst shape') simp
  have f: "fst (bt_add merge t msg) = t'" and sn: "snd (bt_add merge t msg) = Inr acked"
    using r by simp_all
  show "\<exists>acked. snd (bt_add merge t msg) = Inr acked" using sn by blast
  show "fst (bt_add merge t msg)
           = ?A\<lparr> t_successors := t_successors (fst (bt_add merge t msg)),
                 t_unackby := t_unackby (fst (bt_add merge t msg)),
                 t_unacked := t_unacked (fst (bt_add merge t msg)),
                 t_cacheUnacked := None,
                 t_cacheBy := (if u = [] then Map.empty else (t_cacheBy t)(u := None)) \<rparr>"
    unfolding f st by (rule shape')
  show "dom (t_successors (fst (bt_add merge t msg))) = insert m (dom (t_successors t))"
    unfolding f st by (rule ds')
  show "dom (t_unackby (fst (bt_add merge t msg))) = insert m (dom (t_unackby t))"
    unfolding f by (rule du)
qed

lemma inv_cache_fields:
  "inv_log (t\<lparr> t_cacheBy := cb \<rparr>) = inv_log t"
  "inv_msgs (t\<lparr> t_cacheBy := cb \<rparr>) = inv_msgs t"
  "inv_authors (t\<lparr> t_cacheBy := cb \<rparr>) = inv_authors t"
  "inv_order (t\<lparr> t_cacheBy := cb \<rparr>) = inv_order t"
  "inv_context (t\<lparr> t_cacheBy := cb \<rparr>) = inv_context t"
  "inv_tables (t\<lparr> t_cacheBy := cb \<rparr>) = inv_tables t"
  "inv_log (t\<lparr> t_cacheUnacked := cu \<rparr>) = inv_log t"
  "inv_msgs (t\<lparr> t_cacheUnacked := cu \<rparr>) = inv_msgs t"
  "inv_authors (t\<lparr> t_cacheUnacked := cu \<rparr>) = inv_authors t"
  "inv_order (t\<lparr> t_cacheUnacked := cu \<rparr>) = inv_order t"
  "inv_context (t\<lparr> t_cacheUnacked := cu \<rparr>) = inv_context t"
  "inv_tables (t\<lparr> t_cacheUnacked := cu \<rparr>) = inv_tables t"
  "inv_cache (t\<lparr> t_cacheUnacked := cu \<rparr>) = inv_cache t"
  by (simp_all add: inv_log_def inv_msgs_def inv_authors_def inv_order_def inv_context_def
        ctx_entry_ok_def inv_tables_def inv_cache_def)

lemma wf_BaseTranscript: "wf_transcript BaseTranscript"
  by (simp add: wf_transcript_def BaseTranscript_def inv_log_def inv_msgs_def inv_authors_def
        inv_order_def inv_context_def inv_tables_def inv_cache_def)

lemma wf_bt_add:
  assumes w: "wf_transcript t"
  shows "wf_transcript (fst (bt_add merge t msg))"
proof (cases "add_checks merge t msg")
  case (Inl e)
  then show ?thesis using w by (simp add: bt_add_def)
next
  case (Inr r)
  obtain m u pumId c where r: "r = (m, u, pumId, c)" by (cases r)
  with Inr have ok: "add_checks merge t msg = Inr (m, u, pumId, c)" by simp
  note d = add_checks_InrD [OF ok]
  let ?A = "accepted t msg m u pumId c"
  let ?t' = "fst (bt_add merge t msg)"
  note eq = bt_add_accepts(2) [OF w ok]
  note dS = bt_add_accepts(3) [OF w ok]
  note dU = bt_add_accepts(4) [OF w ok]
  from w have l: "inv_log t" and im: "inv_msgs t" and ia: "inv_authors t" and io: "inv_order t"
    and ic: "inv_context t" and tb: "inv_tables t" and ch: "inv_cache t" and nf: "\<not> t_fubar t"
    by (simp_all add: wf_transcript_def)
  have 1: "inv_log ?t'"
    by (subst eq) (simp only: inv_other_fields accepted_inv_log [OF l d(4)])
  have 2: "inv_msgs ?t'"
    by (subst eq) (simp only: inv_other_fields accepted_inv_msgs [OF l im d(4) d(1) d(2) d(6)])
  have 3: "inv_authors ?t'"
    by (subst eq) (simp only: inv_other_fields accepted_inv_authors [OF l ia d(4) d(2) d(9)])
  have 4: "inv_order ?t'"
    by (subst eq) (simp only: inv_other_fields accepted_inv_order [OF l ia io d(4) d(2) d(9)])
  have 5: "inv_context ?t'"
    by (subst eq) (simp only: inv_other_fields accepted_inv_context [OF l im ic d(4) d(6) d(12)])
  have lg: "t_log ?t' = t_log t @ [m]" by (subst eq) (simp add: accepted_def)
  have cx: "t_context ?t' = (t_context t)(m \<mapsto> c)" by (subst eq) (simp add: accepted_def)
  have am: "t_authorMessages ?t' = (t_authorMessages t)(u \<mapsto> earlier_by t u pumId @ [m])"
    by (subst eq) (simp add: accepted_def)
  have cb: "t_cacheBy ?t' = (if u = [] then Map.empty else (t_cacheBy t)(u := None))"
    by (subst eq) simp
  have fb: "t_fubar ?t' = t_fubar t" by (subst eq) (simp add: accepted_def)
  have 6: "inv_tables ?t'"
  proof -
    have "\<And>x. x \<in> set (t_log t) \<Longrightarrow>
            t_successors ?t' x \<noteq> None \<and> t_unackby ?t' x \<noteq> None \<and> t_context ?t' x \<noteq> None"
    proof -
      fix x assume x: "x \<in> set (t_log t)"
      with tb have "x \<in> dom (t_successors t)" "x \<in> dom (t_unackby t)" "t_context t x \<noteq> None"
        by (auto simp: inv_tables_def)
      then show "t_successors ?t' x \<noteq> None \<and> t_unackby ?t' x \<noteq> None \<and> t_context ?t' x \<noteq> None"
        using dS dU by (auto simp: cx dom_def)
    qed
    moreover have "t_successors ?t' m \<noteq> None" "t_unackby ?t' m \<noteq> None" "t_context ?t' m \<noteq> None"
      using dS dU by (auto simp: cx dom_def)
    moreover have "dom (t_unackby ?t') \<subseteq> set (t_log t @ [m])"
      using dU tb by (auto simp: inv_tables_def)
    ultimately show ?thesis unfolding inv_tables_def lg by auto
  qed
  have 7: "inv_cache ?t'"
    using ch unfolding inv_cache_def cb am by (auto split: if_splits)
  have 8: "\<not> t_fubar ?t'" using nf by (simp add: fb)
  from 8 1 2 3 4 5 6 7 show ?thesis unfolding wf_transcript_def by (intro conjI)
qed

lemma wf_bt_by:
  assumes "wf_transcript t"
  shows "wf_transcript (fst (bt_by t u))"
proof (cases "t_cacheBy t u")
  case (Some ms)
  then show ?thesis using assms by (simp add: bt_by_def)
next
  case None
  show ?thesis
  proof (cases "t_authorMessages t u")
    case None
    with \<open>t_cacheBy t u = None\<close> show ?thesis using assms by (simp add: bt_by_def safeGet_def)
  next
    case (Some ms)
    with \<open>t_cacheBy t u = None\<close>
    have e: "fst (bt_by t u) = t\<lparr> t_cacheBy := (t_cacheBy t)(u \<mapsto> ms) \<rparr>"
      by (simp add: bt_by_def safeGet_def)
    have "inv_cache (t\<lparr> t_cacheBy := (t_cacheBy t)(u \<mapsto> ms) \<rparr>)"
      using assms Some by (simp add: wf_transcript_def inv_cache_def)
    then show ?thesis
      using assms unfolding e wf_transcript_def by (simp add: inv_cache_fields)
  qed
qed

lemma wf_bt_unacked:
  assumes "wf_transcript t"
  shows "wf_transcript (fst (bt_unacked t))"
proof (cases "t_cacheUnacked t")
  case None
  then have "fst (bt_unacked t) = t\<lparr> t_cacheUnacked := Some (sortMIds t (t_unacked t)) \<rparr>"
    by (simp add: bt_unacked_def Let_def)
  then show ?thesis using assms unfolding wf_transcript_def by (simp add: inv_cache_fields)
next
  case (Some ms)
  then show ?thesis using assms by (simp add: bt_unacked_def)
qed

lemma reachable_wf: "reachable merge t \<Longrightarrow> wf_transcript t"
proof (induction rule: reachable.induct)
  case r_new
  show ?case by (rule wf_BaseTranscript)
next
  case (r_add t msg)
  then show ?case by (intro wf_bt_add)
next
  case (r_by t u)
  then show ?case by (intro wf_bt_by)
next
  case (r_unacked t)
  then show ?case by (intro wf_bt_unacked)
qed

section \<open>The example transcripts, evaluated\<close>

lemmas eval_defs = bt_add_def add_checks_def tmessage_def merge_ok_def Let_def iset_has_def
  iset_size_def msg_members_def pumId_of_def order_check_def mergeContext_def mergeParent_def
  mergeEntry_def setParentAuthor_def bt_author_def safeGet_def setMissingReader_def commit_def
  commit_core_def commit_sequences_def commit_unacked_def iterAncestors_def unacked_by_def
  ackStep_def invalidateCaches_def sortMIds_def iset_union_def iset_subtract_def bt_pre_def
  bt_le_def bt_ge_def idx_le_def idx_gt_def

lemma transcript_1_eq:
  "transcript_1 =
     \<lparr> t_uIds = [''A''], t_messages = [''1'' \<mapsto> tmessage ''1'' ''A'' [] [''B'']],
       t_minMessages = [''1''], t_maxMessages = [''1''], t_successors = [''1'' \<mapsto> []],
       t_length = 1, t_messageIndex = [''1'' \<mapsto> 0], t_log = [''1''],
       t_authorMessages = [''A'' \<mapsto> [''1'']], t_authorIndex = [''1'' \<mapsto> 0],
       t_context = [''1'' \<mapsto> [(Some ''B'', None)]], t_unackby = [''1'' \<mapsto> [''B'']],
       t_unacked = [''1''], t_fubar = False, t_cacheBy = Map.empty, t_cacheUnacked = None \<rparr>"
  by (simp add: transcript_1_def BaseTranscript_def eval_defs)

lemma transcript_2_eq:
  "transcript_2 =
     \<lparr> t_uIds = [''A''],
       t_messages = [''1'' \<mapsto> tmessage ''1'' ''A'' [] [''B''],
                     ''2'' \<mapsto> tmessage ''2'' ''A'' [''1''] [''B'']],
       t_minMessages = [''1''], t_maxMessages = [''2''],
       t_successors = [''1'' \<mapsto> [''2''], ''2'' \<mapsto> []],
       t_length = 2, t_messageIndex = [''1'' \<mapsto> 0, ''2'' \<mapsto> 1], t_log = [''1'', ''2''],
       t_authorMessages = [''A'' \<mapsto> [''1'', ''2'']], t_authorIndex = [''1'' \<mapsto> 0, ''2'' \<mapsto> 1],
       t_context = [''1'' \<mapsto> [(Some ''B'', None)], ''2'' \<mapsto> [(Some ''B'', None)]],
       t_unackby = [''1'' \<mapsto> [''B''], ''2'' \<mapsto> [''B'']],
       t_unacked = [''1'', ''2''], t_fubar = False, t_cacheBy = Map.empty, t_cacheUnacked = None \<rparr>"
  unfolding transcript_2_def transcript_1_eq
  by (simp add: eval_defs)

section \<open>Rejected messages and the poisoned transcript\<close>

text \<open>
  Claim C1.  A message that fails one of the checks of \<^verbatim>\<open>add\<close> (a null id or author,
  its own id among its parents, an id already recorded, the author among the readers, a
  parent that is not recorded, a parent whose members do not include the author, two
  parents of one author, no parent at or after the author's last message), or whose
  parents the membership merger rejects, makes \<^verbatim>\<open>add\<close> throw, and the transcript after
  the call is the transcript before it, so that every operation answers as before.
\<close>

theorem add_invalid_leaves_transcript:
  assumes "mId msg = None \<or> author msg = None
     \<or> (\<exists>m. mId msg = Some m \<and> m \<in> set (parents msg))
     \<or> (\<exists>m. mId msg = Some m \<and> t_messages t m \<noteq> None)
     \<or> (\<exists>u. author msg = Some u \<and> u \<in> set (readers msg))
     \<or> (\<exists>p \<in> set (parents msg). t_messages t p = None)
     \<or> (\<exists>p \<in> set (parents msg). \<exists>pmsg. t_messages t p = Some pmsg
            \<and> author msg \<notin> set (msg_members pmsg))
     \<or> (\<exists>p \<in> set (parents msg). \<exists>q \<in> set (parents msg). p \<noteq> q
            \<and> (\<exists>pmsg qmsg. t_messages t p = Some pmsg \<and> t_messages t q = Some qmsg
                   \<and> author pmsg = author qmsg))
     \<or> (\<exists>u ms. author msg = Some u \<and> t_authorMessages t u = Some ms
            \<and> \<not> (\<exists>p \<in> set (parents msg). bt_le t (last ms) p = Inr True))
     \<or> (\<exists>e. merge t (parents msg) = Inl e)"
  shows "\<exists>e. bt_add merge t msg = (t, Inl e)
           \<and> bt_size (fst (bt_add merge t msg)) = bt_size t
           \<and> bt_all (fst (bt_add merge t msg)) = bt_all t
           \<and> bt_min (fst (bt_add merge t msg)) = bt_min t
           \<and> bt_max (fst (bt_add merge t msg)) = bt_max t
           \<and> bt_pre (fst (bt_add merge t msg)) = bt_pre t
           \<and> bt_suc (fst (bt_add merge t msg)) = bt_suc t
           \<and> bt_by (fst (bt_add merge t msg)) = bt_by t
           \<and> bt_unackby (fst (bt_add merge t msg)) = bt_unackby t
           \<and> bt_unacked (fst (bt_add merge t msg)) = bt_unacked t
           \<and> t_context (fst (bt_add merge t msg)) = t_context t"
proof -
  have "\<exists>e. add_checks merge t msg = Inl e"
    using assms by (rule add_checks_rejects)
  then obtain e where "add_checks merge t msg = Inl e" ..
  then have "\<exists>e. bt_add merge t msg = (t, Inl e)"
    by (simp add: bt_add_def)
  then show ?thesis by auto
qed

theorem add_invalid_leaves_transcript_witness:
  "t_messages BaseTranscript ''1'' = None
   \<and> ''1'' \<in> set (parents (tmessage ''2'' ''B'' [''1''] [''A'']))
   \<and> (\<exists>e. bt_add merge_ok BaseTranscript (tmessage ''2'' ''B'' [''1''] [''A''])
              = (BaseTranscript, Inl e))"
  using add_invalid_leaves_transcript [of "tmessage ''2'' ''B'' [''1''] [''A'']" BaseTranscript merge_ok]
  by (simp add: tmessage_def BaseTranscript_def merge_ok_def)

lemma le_fuel_fields:
  assumes "t_messages t' = t_messages t" "t_authorIndex t' = t_authorIndex t"
    "t_context t' = t_context t" "t_messageIndex t' = t_messageIndex t"
  shows "le_fuel n t' m0 m1 = le_fuel n t m0 m1"
proof (induction n arbitrary: m1)
  case 0
  then show ?case by simp
next
  case (Suc n)
  then have "le_fuel n t' m0 = le_fuel n t m0" by (intro ext)
  then show ?case
    by (simp add: assms cong: sum.case_cong option.case_cong if_cong)
qed

lemma le_fuel_fubar: "le_fuel n (t\<lparr> t_fubar := b \<rparr>) m0 m1 = le_fuel n t m0 m1"
  by (rule le_fuel_fields) simp_all

text \<open>
  The flag \<^verbatim>\<open>_fubar\<close>.  A transcript with the flag refuses every \<^verbatim>\<open>add\<close> and stays as
  it is; an exception thrown by the state updates of \<^verbatim>\<open>add\<close> sets the flag, and an
  \<^verbatim>\<open>add\<close> that throws has either changed nothing or set the flag.  No other method of
  the source reads the flag: \<^verbatim>\<open>size\<close>, \<^verbatim>\<open>all\<close>, \<^verbatim>\<open>has\<close>, \<^verbatim>\<open>get\<close>, \<^verbatim>\<open>le\<close>,
  \<^verbatim>\<open>pre\<close>, \<^verbatim>\<open>suc\<close>, \<^verbatim>\<open>unackby\<close>, \<^verbatim>\<open>by\<close> and \<^verbatim>\<open>unacked\<close> answer with the flag as
  without it.  On a transcript built by the operations the flag is never set (lemma
  \<open>reachable_not_poisoned\<close> below).
\<close>

lemma fubar_read_by_add_only:
  "(t_fubar t \<longrightarrow> (\<exists>e. bt_add merge t msg = (t, Inl e)))
   \<and> (\<forall>m u pumId c e. \<not> t_fubar t \<and> add_checks merge t msg = Inr (m, u, pumId, c)
          \<and> snd (commit t msg m u pumId c) = Inl e
        \<longrightarrow> snd (bt_add merge t msg) = Inl e \<and> t_fubar (fst (bt_add merge t msg)))
   \<and> (\<forall>t' e. bt_add merge t msg = (t', Inl e) \<longrightarrow> t' = t \<or> t_fubar t')
   \<and> bt_size (t\<lparr> t_fubar := True \<rparr>) = bt_size t
   \<and> bt_all (t\<lparr> t_fubar := True \<rparr>) = bt_all t
   \<and> bt_has (t\<lparr> t_fubar := True \<rparr>) = bt_has t
   \<and> bt_get (t\<lparr> t_fubar := True \<rparr>) = bt_get t
   \<and> bt_le (t\<lparr> t_fubar := True \<rparr>) = bt_le t
   \<and> bt_pre (t\<lparr> t_fubar := True \<rparr>) = bt_pre t
   \<and> bt_suc (t\<lparr> t_fubar := True \<rparr>) = bt_suc t
   \<and> bt_unackby (t\<lparr> t_fubar := True \<rparr>) = bt_unackby t
   \<and> snd (bt_by (t\<lparr> t_fubar := True \<rparr>) u) = snd (bt_by t u)
   \<and> snd (bt_unacked (t\<lparr> t_fubar := True \<rparr>)) = snd (bt_unacked t)"
proof -
  have 1: "t_fubar t \<longrightarrow> (\<exists>e. bt_add merge t msg = (t, Inl e))"
    by (simp add: bt_add_def)
  have 2: "\<forall>m u pumId c e. \<not> t_fubar t \<and> add_checks merge t msg = Inr (m, u, pumId, c)
          \<and> snd (commit t msg m u pumId c) = Inl e
        \<longrightarrow> snd (bt_add merge t msg) = Inl e \<and> t_fubar (fst (bt_add merge t msg))"
    by (auto simp: bt_add_def split: prod.splits sum.splits)
  have 3: "\<forall>t' e. bt_add merge t msg = (t', Inl e) \<longrightarrow> t' = t \<or> t_fubar t'"
    by (auto simp: bt_add_def split: prod.splits sum.splits if_splits)
  have 4: "bt_le (t\<lparr> t_fubar := True \<rparr>) = bt_le t"
    by (intro ext) (simp add: bt_le_def le_fuel_fubar)
  have 5: "snd (bt_by (t\<lparr> t_fubar := True \<rparr>) u) = snd (bt_by t u)"
    by (simp add: bt_by_def safeGet_def split: option.splits)
  have 6: "snd (bt_unacked (t\<lparr> t_fubar := True \<rparr>)) = snd (bt_unacked t)"
    by (simp add: bt_unacked_def sortMIds_def Let_def split: option.splits)
  have 7: "bt_size (t\<lparr> t_fubar := True \<rparr>) = bt_size t" "bt_all (t\<lparr> t_fubar := True \<rparr>) = bt_all t"
    "bt_has (t\<lparr> t_fubar := True \<rparr>) = bt_has t" "bt_get (t\<lparr> t_fubar := True \<rparr>) = bt_get t"
    "bt_pre (t\<lparr> t_fubar := True \<rparr>) = bt_pre t" "bt_suc (t\<lparr> t_fubar := True \<rparr>) = bt_suc t"
    "bt_unackby (t\<lparr> t_fubar := True \<rparr>) = bt_unackby t"
    by (simp_all add: bt_size_def bt_all_def bt_has_def bt_get_def bt_pre_def bt_suc_def
          bt_unackby_def fun_eq_iff)
  from 1 2 3 4 5 6 7 show ?thesis by (intro conjI)
qed

section \<open>The causal order on accepted messages\<close>

lemma bt_by_result:
  assumes "wf_transcript t"
  shows "(snd (bt_by t u) = Inr ms) = (t_authorMessages t u = Some ms)"
proof (cases "t_cacheBy t u")
  case None
  then show ?thesis by (auto simp: bt_by_def safeGet_def split: option.splits)
next
  case (Some c)
  with assms have "t_authorMessages t u = Some c" by (simp add: wf_transcript_def inv_cache_def)
  with Some show ?thesis by (auto simp: bt_by_def)
qed

lemma le_same_author:
  assumes "t_messages t a = Some ma" "t_messages t b = Some mb" "author ma = author mb"
    "t_authorIndex t a = Some i" "t_authorIndex t b = Some j" "i \<le> j"
  shows "bt_le t a b = Inr True"
  using assms by (simp add: bt_le_def safeGet_def)

lemma le_fuel_index:
  assumes w: "wf_transcript t"
  shows "le_fuel n t a b = Inr True \<Longrightarrow> b \<in> set (t_log t)
           \<Longrightarrow> idx_le (t_messageIndex t a) (t_messageIndex t b)"
proof (induction n arbitrary: b)
  case 0
  then show ?case by simp
next
  case (Suc n)
  from w have l: "inv_log t" and im: "inv_msgs t" and io: "inv_order t" and ic: "inv_context t"
    by (simp_all add: wf_transcript_def)
  from Suc.prems(2) obtain j where j: "t_messageIndex t b = Some j"
    using l inv_log_index by blast
  show ?case
  proof (cases "a = b")
    case True
    with j show ?thesis by simp
  next
    case False
    with Suc.prems(1) obtain ma mb where
      ma: "t_messages t a = Some ma" and mb: "t_messages t b = Some mb"
      by (auto simp: safeGet_def split: option.splits)
    have al: "a \<in> set (t_log t)" using ma l inv_log_recorded [of t a] by auto
    then obtain i where i: "t_messageIndex t a = Some i" using l inv_log_index by blast
    show ?thesis
    proof (cases "author ma = author mb")
      case True
      with Suc.prems(1) False ma mb have "idx_le (t_authorIndex t a) (t_authorIndex t b)"
        by (simp add: safeGet_def)
      then obtain x y where "t_authorIndex t a = Some x" "t_authorIndex t b = Some y" "x \<le> y"
        by (auto dest: idx_le_D)
      with io ma mb True show ?thesis unfolding inv_order_def by blast
    next
      case na: False
      show ?thesis
      proof (cases "case author ma of None \<Rightarrow> False | Some u0 \<Rightarrow> iset_has (readers mb) u0")
        case True
        with Suc.prems(1) False ma mb na obtain c p0 where
          c: "t_context t b = Some c" "map_of c (author ma) = Some (Some p0)"
          and le: "idx_le (t_authorIndex t a) (t_authorIndex t p0)"
          by (auto simp: safeGet_def split: option.splits)
        from c(2) have "(author ma, Some p0) \<in> set c" by (rule map_of_SomeD)
        with ic c(1) j have "ctx_entry_ok t j (author ma) p0"
          unfolding inv_context_def by fastforce
        then obtain pm k where p: "t_messages t p0 = Some pm" "author pm = author ma"
          "t_messageIndex t p0 = Some k" "k < j"
          by (auto simp: ctx_entry_ok_def)
        from le obtain x y where "t_authorIndex t a = Some x" "t_authorIndex t p0 = Some y" "x \<le> y"
          by (auto dest: idx_le_D)
        with io ma p(1,2) have "idx_le (t_messageIndex t a) (t_messageIndex t p0)"
          unfolding inv_order_def by metis
        with i p(3,4) j show ?thesis by simp
      next
        case nr: False
        with Suc.prems(1) \<open>a \<noteq> b\<close> ma mb na
        have "some_of (le_fuel n t a) (parents mb) = Inr True"
          by (simp add: safeGet_def split: if_splits)
        then obtain p where p: "p \<in> set (parents mb)" "le_fuel n t a p = Inr True"
          by (auto dest: some_of_True)
        from im mb p(1) have g: "idx_gt (t_messageIndex t b) (t_messageIndex t p)"
          by (auto simp: inv_msgs_def)
        then obtain k where k: "t_messageIndex t p = Some k" "k < j"
          using j by (auto dest: idx_gt_D)
        then have "p \<in> set (t_log t)" using l inv_log_index_D by blast
        with p(2) have "idx_le (t_messageIndex t a) (t_messageIndex t p)" by (rule Suc.IH)
        with i k j show ?thesis by simp
      qed
    qed
  qed
qed

text \<open>On a transcript built by the operations the state updates of \<^verbatim>\<open>add\<close> never throw, so
  the flag is never set; and the depth bound of \<open>bt_le\<close> is never reached.\<close>

lemma reachable_not_poisoned: "reachable merge t \<Longrightarrow> \<not> t_fubar t"
  by (drule reachable_wf) (simp add: wf_transcript_def)

lemma some_of_total:
  assumes "\<And>x. x \<in> set xs \<Longrightarrow> \<exists>r. f x = Inr r"
  shows "\<exists>r. some_of f xs = Inr r"
  using assms
proof (induction xs)
  case Nil
  show ?case by (rule exI [of _ False]) simp
next
  case (Cons x xs)
  from Cons.prems [of x] obtain r where r: "f x = Inr r" by auto
  have "\<exists>r. some_of f xs = Inr r" using Cons.prems by (intro Cons.IH) auto
  with r show ?case by (cases r) auto
qed

lemma le_fuel_total:
  assumes w: "wf_transcript t" and a: "a \<in> set (t_log t)"
  shows "t_messageIndex t b = Some j \<Longrightarrow> j < n \<Longrightarrow> \<exists>r. le_fuel n t a b = Inr r"
proof (induction n arbitrary: b j)
  case 0
  then show ?case by simp
next
  case (Suc n)
  from w have l: "inv_log t" and im: "inv_msgs t" and tb: "inv_tables t"
    by (simp_all add: wf_transcript_def)
  from a obtain ma where ma: "t_messages t a = Some ma"
    using l inv_log_recorded [of t a] by auto
  from Suc.prems(1) have bl: "b \<in> set (t_log t)" using l inv_log_index_D by blast
  then obtain mb where mb: "t_messages t b = Some mb"
    using l inv_log_recorded [of t b] by auto
  from bl tb obtain c where c: "t_context t b = Some c" by (auto simp: inv_tables_def)
  have "\<exists>r. some_of (le_fuel n t a) (parents mb) = Inr r"
  proof (rule some_of_total)
    fix p assume "p \<in> set (parents mb)"
    with im mb have "idx_gt (t_messageIndex t b) (t_messageIndex t p)" by (auto simp: inv_msgs_def)
    with Suc.prems(1) obtain k where k: "t_messageIndex t p = Some k" "k < j"
      by (auto dest: idx_gt_D)
    with Suc.prems(2) have "k < n" by simp
    with k(1) show "\<exists>r. le_fuel n t a p = Inr r" by (rule Suc.IH)
  qed
  then show ?case
    using ma mb c by (auto simp: safeGet_def split: option.splits)
qed

lemma bt_le_total:
  assumes "reachable merge t" and "a \<in> set (t_log t)" and "b \<in> set (t_log t)"
  shows "\<exists>r. bt_le t a b = Inr r"
proof -
  from assms(1) have w: "wf_transcript t" by (rule reachable_wf)
  then have l: "inv_log t" by (simp add: wf_transcript_def)
  from assms(3) obtain j where j: "t_messageIndex t b = Some j" "j < length (t_log t)"
    using l inv_log_index by blast
  then have "j < Suc (length (t_log t))" by simp
  with j(1) show ?thesis unfolding bt_le_def by (rule le_fuel_total [OF w assms(2)])
qed

section \<open>Order and acknowledgement on transcripts built by the operations\<close>

lemma reachable_transcript_1: "reachable merge_ok transcript_1"
  unfolding transcript_1_def by (intro reachable.intros)

lemma reachable_transcript_2: "reachable merge_ok transcript_2"
  unfolding transcript_2_def by (intro reachable.intros reachable_transcript_1)

text \<open>
  Claim C2.  On a transcript built by the operations, for every author \<open>u\<close>: any two
  messages of \<^verbatim>\<open>by(u)\<close>, the first at or before the second, are related by \<^verbatim>\<open>le\<close>;
  and \<^verbatim>\<open>add\<close> throws, leaving the transcript as it was, on a message of \<open>u\<close> none of
  whose parents is at or after the last message of \<^verbatim>\<open>by(u)\<close>.
\<close>

theorem by_author_is_causally_ordered:
  assumes "reachable merge t"
  shows "(\<forall>ms i j. snd (bt_by t u) = Inr ms \<and> i \<le> j \<and> j < length ms
            \<longrightarrow> bt_le t (ms ! i) (ms ! j) = Inr True)
       \<and> (\<forall>msg ms. author msg = Some u \<and> snd (bt_by t u) = Inr ms
             \<and> \<not> (\<exists>p \<in> set (parents msg). bt_le t (last ms) p = Inr True)
            \<longrightarrow> (\<exists>e. bt_add merge t msg = (t, Inl e)))"
proof (intro conjI allI impI)
  from assms have w: "wf_transcript t" by (rule reachable_wf)
  then have a: "inv_authors t" by (simp add: wf_transcript_def)
  {
    fix ms i j
    assume h: "snd (bt_by t u) = Inr ms \<and> i \<le> j \<and> j < length ms"
    then have ms: "t_authorMessages t u = Some ms" using bt_by_result [OF w] by blast
    from h have i: "i < length ms" and j: "j < length ms" and ij: "i \<le> j" by simp_all
    from a ms i obtain ma where
      ma: "t_authorIndex t (ms ! i) = Some i" "t_messages t (ms ! i) = Some ma" "author ma = Some u"
      unfolding inv_authors_def by blast
    from a ms j obtain mb where
      mb: "t_authorIndex t (ms ! j) = Some j" "t_messages t (ms ! j) = Some mb" "author mb = Some u"
      unfolding inv_authors_def by blast
    show "bt_le t (ms ! i) (ms ! j) = Inr True"
      using ma mb ij by (intro le_same_author [of t _ ma _ mb i j]) simp_all
  }
  {
    fix msg :: tmsg and ms
    assume h: "author msg = Some u \<and> snd (bt_by t u) = Inr ms
                 \<and> \<not> (\<exists>p \<in> set (parents msg). bt_le t (last ms) p = Inr True)"
    then have ms: "t_authorMessages t u = Some ms" using bt_by_result [OF w] by blast
    have "\<exists>e. add_checks merge t msg = Inl e"
      by (rule add_checks_rejects) (use h ms in blast)
    then show "\<exists>e. bt_add merge t msg = (t, Inl e)"
      by (auto simp: bt_add_def)
  }
qed

theorem by_author_is_causally_ordered_witness:
  "reachable merge_ok transcript_2
   \<and> snd (bt_by transcript_2 ''A'') = Inr [''1'', ''2'']
   \<and> bt_le transcript_2 ''1'' ''2'' = Inr True
   \<and> (\<exists>e. bt_add merge_ok transcript_2 (tmessage ''3'' ''A'' [] [''B'']) = (transcript_2, Inl e))"
proof -
  have b: "snd (bt_by transcript_2 ''A'') = Inr [''1'', ''2'']"
    by (simp add: transcript_2_eq bt_by_def safeGet_def)
  have a: "author (tmessage ''3'' ''A'' [] [''B'']) = Some ''A''"
    and p: "parents (tmessage ''3'' ''A'' [] [''B'']) = []"
    by (simp_all add: tmessage_def)
  note c = by_author_is_causally_ordered [OF reachable_transcript_2, of "''A''"]
  from c b have "bt_le transcript_2 ([''1'', ''2''] ! 0) ([''1'', ''2''] ! 1) = Inr True"
    by (elim conjE allE [of _ "[''1'', ''2'']"] allE [of _ 0] allE [of _ "1::nat"]) simp
  then have 1: "bt_le transcript_2 ''1'' ''2'' = Inr True" by simp
  from c a b p have 2: "\<exists>e. bt_add merge_ok transcript_2 (tmessage ''3'' ''A'' [] [''B''])
                               = (transcript_2, Inl e)"
    by (elim conjE allE [of _ "tmessage ''3'' ''A'' [] [''B'']"] allE [of _ "[''1'', ''2'']"]) simp
  from reachable_transcript_2 b 1 2 show ?thesis by (intro conjI)
qed

text \<open>
  Claim C3.  On a transcript built by the operations, for accepted messages \<open>a\<close> and
  \<open>b\<close>: when \<^verbatim>\<open>le(a, b)\<close> holds, the position of \<open>a\<close> in \<^verbatim>\<open>all()\<close>, which is its
  \<^verbatim>\<open>_messageIndex\<close>, is at most that of \<open>b\<close>.
\<close>

theorem accept_order_extends_le:
  assumes "reachable merge t" and "bt_le t a b = Inr True"
    and "a \<in> set (t_log t)" and "b \<in> set (t_log t)"
  shows "\<exists>i j. bt_all t = Inr (t_log t) \<and> i \<le> j \<and> j < length (t_log t)
           \<and> t_log t ! i = a \<and> t_log t ! j = b
           \<and> t_messageIndex t a = Some i \<and> t_messageIndex t b = Some j"
proof -
  from assms(1) have w: "wf_transcript t" by (rule reachable_wf)
  then have l: "inv_log t" by (simp add: wf_transcript_def)
  have "idx_le (t_messageIndex t a) (t_messageIndex t b)"
    using assms(2,4) unfolding bt_le_def by (rule le_fuel_index [OF w])
  then obtain i j where ij: "t_messageIndex t a = Some i" "t_messageIndex t b = Some j" "i \<le> j"
    by (auto dest: idx_le_D)
  with l have "i < length (t_log t) \<and> t_log t ! i = a" "j < length (t_log t) \<and> t_log t ! j = b"
    using inv_log_index_D by blast+
  with ij show ?thesis by (auto simp: bt_all_def)
qed

theorem accept_order_extends_le_witness:
  "reachable merge_ok transcript_2
   \<and> bt_le transcript_2 ''1'' ''2'' = Inr True
   \<and> ''1'' \<in> set (t_log transcript_2) \<and> ''2'' \<in> set (t_log transcript_2)
   \<and> (\<exists>i j. bt_all transcript_2 = Inr (t_log transcript_2) \<and> i \<le> j
          \<and> j < length (t_log transcript_2)
          \<and> t_log transcript_2 ! i = ''1'' \<and> t_log transcript_2 ! j = ''2''
          \<and> t_messageIndex transcript_2 ''1'' = Some i
          \<and> t_messageIndex transcript_2 ''2'' = Some j)"
proof -
  have le: "bt_le transcript_2 ''1'' ''2'' = Inr True"
    by (simp add: transcript_2_eq bt_le_def safeGet_def tmessage_def idx_le_def)
  have a: "''1'' \<in> set (t_log transcript_2)" and b: "''2'' \<in> set (t_log transcript_2)"
    by (simp_all add: transcript_2_eq)
  from accept_order_extends_le [OF reachable_transcript_2 le a b] reachable_transcript_2 le a b
  show ?thesis by (intro conjI)
qed

lemma bt_add_InrD:
  assumes "bt_add merge t msg = (t', Inr acked)"
  shows "\<exists>m u pumId c t2. add_checks merge t msg = Inr (m, u, pumId, c)
           \<and> commit_successors m (parents msg) (commit_core t msg m u) = (t2, None)
           \<and> commit_unacked (commit_sequences t2 msg m u pumId c) msg m u = (t', Inr acked)"
proof -
  from assms have nf: "\<not> t_fubar t" by (auto simp: bt_add_def split: if_splits)
  with assms obtain m u pumId c where ok: "add_checks merge t msg = Inr (m, u, pumId, c)"
    by (cases "add_checks merge t msg") (auto simp: bt_add_def)
  with assms nf have cm: "commit t msg m u pumId c = (t', Inr acked)"
    by (auto simp: bt_add_def split: prod.splits sum.splits)
  obtain t2 e where cs: "commit_successors m (parents msg) (commit_core t msg m u) = (t2, e)"
    by (cases "commit_successors m (parents msg) (commit_core t msg m u)")
  with cm have "e = None" by (cases e) (auto simp: commit_def)
  with cs cm have "commit_unacked (commit_sequences t2 msg m u pumId c) msg m u = (t', Inr acked)"
    by (simp add: commit_def)
  with ok cs \<open>e = None\<close> show ?thesis by blast
qed

lemma sorted_key_strict:
  assumes s: "sorted (map f xs)" and d: "distinct xs"
    and inj: "\<And>x y. x \<in> set xs \<Longrightarrow> y \<in> set xs \<Longrightarrow> f x = f y \<Longrightarrow> x = y"
  shows "sorted_wrt (\<lambda>a b. f a < f b) xs"
  unfolding sorted_wrt_iff_nth_less
proof (intro allI impI)
  fix i j assume ij: "i < j" "j < length xs"
  then have "map f xs ! i \<le> map f xs ! j"
    using s by (intro sorted_nth_mono) simp_all
  then have le: "f (xs ! i) \<le> f (xs ! j)" using ij by simp
  have "xs ! i \<noteq> xs ! j" using d ij by (simp add: nth_eq_iff_index_eq)
  then have "f (xs ! i) \<noteq> f (xs ! j)" using inj [of "xs ! i" "xs ! j"] ij by auto
  with le show "f (xs ! i) < f (xs ! j)" by simp
qed

lemma add_without_readers:
  "snd (bt_add merge_ok BaseTranscript (tmessage ''1'' ''A'' [] [])) = Inr [''1'']"
  by (simp add: BaseTranscript_def eval_defs)

lemma add_first_ack:
  "snd (bt_add merge_ok transcript_1 (tmessage ''2'' ''B'' [''1''] [''A''])) = Inr [''1'']"
  unfolding transcript_1_eq by (simp add: eval_defs)

text \<open>
  What \<^verbatim>\<open>add\<close> returns.  When \<^verbatim>\<open>add(msg)\<close> succeeds on a transcript built by the
  operations, the list it returns holds the messages accepted before whose unacked readers
  were not empty before the call and are empty after it, and \<^verbatim>\<open>msg.mId\<close> itself when
  \<^verbatim>\<open>msg\<close> has no readers, and nothing else; it is in strictly ascending order of the
  index in the log.
\<close>

lemma add_returns_newly_acked:
  assumes r: "reachable merge t" and res: "bt_add merge t msg = (t', Inr acked)"
  shows "\<exists>m. mId msg = Some m
           \<and> set acked = {a \<in> set (t_log t). t_unackby t a \<noteq> Some [] \<and> t_unackby t' a = Some []}
                            \<union> (if readers msg = [] then {m} else {})
           \<and> sorted_wrt (\<lambda>a b. \<exists>i j. t_messageIndex t' a = Some i \<and> t_messageIndex t' b = Some j
                                      \<and> i < j) acked"
proof -
  from r have w: "wf_transcript t" by (rule reachable_wf)
  then have l: "inv_log t" and tb: "inv_tables t" by (simp_all add: wf_transcript_def)
  from bt_add_InrD [OF res] obtain m u pumId c t2 where
    ok: "add_checks merge t msg = Inr (m, u, pumId, c)" and
    cs: "commit_successors m (parents msg) (commit_core t msg m u) = (t2, None)" and
    cu: "commit_unacked (commit_sequences t2 msg m u pumId c) msg m u = (t', Inr acked)"
    by blast
  note d = add_checks_InrD [OF ok]
  let ?A = "accepted t msg m u pumId c"
  let ?t6 = "?A\<lparr> t_successors := (t_successors t2)(m \<mapsto> []) \<rparr>"
  let ?U7 = "(t_unackby t)(m \<mapsto> readers msg)"
  let ?w = "\<lambda>x. iset_subtract (case ?U7 x of None \<Rightarrow> [] | Some us \<Rightarrow> us) [u]"
  have t6: "commit_sequences t2 msg m u pumId c = ?t6" using cs by (rule commit_sequences_eq)
  have u6: "t_unackby ?t6 = t_unackby t" by (simp add: accepted_def)
  have m6: "t_messageIndex ?t6 = (t_messageIndex t)(m \<mapsto> t_length t)" by (simp add: accepted_def)
  from cu have cu6: "commit_unacked ?t6 msg m u = (t', Inr acked)" by (simp only: t6)
  from commit_unacked_walk [OF cu6] obtain anc where
    anc: "iterAncestors (?t6\<lparr> t_unackby := (t_unackby ?t6)(m \<mapsto> readers msg),
                              t_unacked := iset_union (t_unacked ?t6) [m] \<rparr>)
            (parents msg) (unacked_by ((t_unackby ?t6)(m \<mapsto> readers msg)) u) = Inr anc"
    by blast
  from commit_unacked_Inr(1) [OF cu6 anc] obtain acked1 where
    a1: "set acked1 = set (if iset_size (readers msg) = 0 then [m] else [])
                        \<union> {a \<in> set anc. ?w a = []}"
    and d1: "distinct acked1"
    and srt: "acked = sort_key (\<lambda>x. case ((t_messageIndex t)(m \<mapsto> t_length t)) x of
                                       None \<Rightarrow> 0 | Some i \<Rightarrow> i) acked1"
    unfolding u6 m6 by blast
  have ut: "\<And>x. t_unackby t' x = (if x \<in> set anc then Some (?w x) else ?U7 x)"
    using commit_unacked_Inr(3) [OF cu6 anc] unfolding u6 by blast
  have mi': "t_messageIndex t' = (t_messageIndex t)(m \<mapsto> t_length t)"
    by (subst commit_unacked_Inr(2) [OF cu6 anc]) (simp add: accepted_def)
  have lg': "t_log t' = t_log t @ [m]"
    by (subst commit_unacked_Inr(2) [OF cu6 anc]) (simp add: accepted_def)
  have nm: "m \<notin> set (t_log t)" using d(4) l inv_log_recorded by blast
  \<comment> \<open>the walk yields old messages that the author had not acknowledged\<close>
  have ancp: "\<And>y. y \<in> set anc \<Longrightarrow> y \<in> set (t_log t) \<and> (\<exists>us. t_unackby t y = Some us \<and> u \<in> set us)"
  proof -
    fix y assume "y \<in> set anc"
    with iterAncestors_sound [OF anc] have p: "unacked_by ?U7 u y = Inr True" by (simp add: u6)
    then obtain us where us: "?U7 y = Some us" "u \<in> set us"
      by (auto simp: unacked_by_def iset_has_def split: option.splits)
    with d(5) have "y \<noteq> m" by auto
    with us have "t_unackby t y = Some us" by simp
    moreover then have "y \<in> set (t_log t)" using tb by (auto simp: inv_tables_def)
    ultimately show "y \<in> set (t_log t) \<and> (\<exists>us. t_unackby t y = Some us \<and> u \<in> set us)"
      using us(2) by blast
  qed
  have e0: "set (if iset_size (readers msg) = 0 then [m] else [])
              = (if readers msg = [] then {m} else {})"
    by (simp add: iset_size_0)
  have e1: "{a \<in> set anc. ?w a = []}
              = {a \<in> set (t_log t). t_unackby t a \<noteq> Some [] \<and> t_unackby t' a = Some []}"
  proof (rule set_eqI)
    fix a
    show "(a \<in> {a \<in> set anc. ?w a = []})
            = (a \<in> {a \<in> set (t_log t). t_unackby t a \<noteq> Some [] \<and> t_unackby t' a = Some []})"
    proof (cases "a \<in> set anc")
      case True
      with ancp [of a] show ?thesis using ut [of a] by auto
    next
      case False
      show ?thesis
      proof (cases "a = m")
        case True
        with nm False show ?thesis by simp
      next
        case am: False
        with False ut [of a] have "t_unackby t' a = t_unackby t a" by simp
        with False show ?thesis by auto
      qed
    qed
  qed
  have sa: "set acked = set acked1" unfolding srt by simp
  have set_eq: "set acked = {a \<in> set (t_log t). t_unackby t a \<noteq> Some [] \<and> t_unackby t' a = Some []}
                            \<union> (if readers msg = [] then {m} else {})"
    unfolding sa a1 e0 e1 by blast
  \<comment> \<open>the order of the result\<close>
  have w': "wf_transcript t'" using wf_bt_add [OF w, of merge msg] res by simp
  then have l': "inv_log t'" by (simp add: wf_transcript_def)
  let ?f = "\<lambda>x. case t_messageIndex t' x of None \<Rightarrow> 0 | Some i \<Rightarrow> i"
  have inlog: "\<And>x. x \<in> set acked \<Longrightarrow> x \<in> set (t_log t')"
  proof -
    fix x assume "x \<in> set acked"
    then have "x \<in> set (t_log t) \<or> x = m"
      unfolding set_eq by (cases "readers msg = []") auto
    then show "x \<in> set (t_log t')" unfolding lg' by auto
  qed
  have idx: "\<And>x. x \<in> set acked \<Longrightarrow> t_messageIndex t' x = Some (?f x)"
  proof -
    fix x assume "x \<in> set acked"
    then have "x \<in> set (t_log t')" by (rule inlog)
    then obtain i where "t_messageIndex t' x = Some i" using l' inv_log_index by blast
    then show "t_messageIndex t' x = Some (?f x)" by simp
  qed
  have "sorted (map ?f acked)" unfolding srt mi' by (rule sorted_sort_key)
  moreover have "distinct acked" unfolding srt using d1 by simp
  moreover have "\<And>x y. x \<in> set acked \<Longrightarrow> y \<in> set acked \<Longrightarrow> ?f x = ?f y \<Longrightarrow> x = y"
  proof -
    fix x y assume h: "x \<in> set acked" "y \<in> set acked" "?f x = ?f y"
    define k where "k = ?f x"
    have kx: "t_messageIndex t' x = Some k" using idx [OF h(1)] by (simp only: k_def)
    have ky: "t_messageIndex t' y = Some k" using idx [OF h(2)] h(3) by (simp only: k_def)
    from inv_log_index_D [OF l' kx] inv_log_index_D [OF l' ky] show "x = y" by simp
  qed
  ultimately have "sorted_wrt (\<lambda>a b. ?f a < ?f b) acked" by (rule sorted_key_strict)
  then have "sorted_wrt (\<lambda>a b. \<exists>i j. t_messageIndex t' a = Some i \<and> t_messageIndex t' b = Some j
                                      \<and> i < j) acked"
  proof (rule sorted_wrt_mono_rel [rotated])
    fix a b assume "a \<in> set acked" "b \<in> set acked" "?f a < ?f b"
    with idx [of a] idx [of b]
    show "\<exists>i j. t_messageIndex t' a = Some i \<and> t_messageIndex t' b = Some j \<and> i < j" by blast
  qed
  with set_eq d(1) show ?thesis by blast
qed

lemma add_returns_newly_acked_example:
  "reachable merge_ok transcript_1
   \<and> snd (bt_add merge_ok transcript_1 (tmessage ''2'' ''B'' [''1''] [''A''])) = Inr [''1'']
   \<and> (\<exists>m. mId (tmessage ''2'' ''B'' [''1''] [''A'']) = Some m
          \<and> set [''1'']
                = {a \<in> set (t_log transcript_1).
                     t_unackby transcript_1 a \<noteq> Some []
                     \<and> t_unackby (fst (bt_add merge_ok transcript_1 (tmessage ''2'' ''B'' [''1''] [''A''])))
                           a = Some []}
                  \<union> (if readers (tmessage ''2'' ''B'' [''1''] [''A'']) = [] then {m} else {})
          \<and> sorted_wrt
                (\<lambda>a b. \<exists>i j. t_messageIndex (fst (bt_add merge_ok transcript_1
                                                        (tmessage ''2'' ''B'' [''1''] [''A''])))
                                       a = Some i
                              \<and> t_messageIndex (fst (bt_add merge_ok transcript_1
                                                        (tmessage ''2'' ''B'' [''1''] [''A''])))
                                       b = Some j
                              \<and> i < j)
                [''1''])"
proof -
  have e: "bt_add merge_ok transcript_1 (tmessage ''2'' ''B'' [''1''] [''A''])
             = (fst (bt_add merge_ok transcript_1 (tmessage ''2'' ''B'' [''1''] [''A''])), Inr [''1''])"
    using add_first_ack by (simp add: prod_eq_iff)
  from add_returns_newly_acked [OF reachable_transcript_1 e] reachable_transcript_1 add_first_ack
  show ?thesis by (intro conjI)
qed

text \<open>
  Claim C4 fails on the code for a message without readers.  The documentation of
  \<^verbatim>\<open>add\<close> says that it returns the older messages that became fully acknowledged by
  the message being accepted.  A new transcript that accepts the message \<open>1\<close> of \<open>A\<close>,
  which has no parents and no readers, returns the list \<open>[1]\<close>: the id of the message
  itself, which was not accepted before the call
  (\<^verbatim>\<open>if (!ruId.size) { acked.add(mId); }\<close>).
\<close>

theorem add_without_readers_returns_own_id:
  "reachable merge_ok BaseTranscript
   \<and> bt_has BaseTranscript ''1'' = Inr False
   \<and> mId (tmessage ''1'' ''A'' [] []) = Some ''1''
   \<and> readers (tmessage ''1'' ''A'' [] []) = []
   \<and> snd (bt_add merge_ok BaseTranscript (tmessage ''1'' ''A'' [] [])) = Inr [''1'']"
  by (simp add: add_without_readers r_new) (simp add: tmessage_def bt_has_def BaseTranscript_def)

end
